theory Spec2Isabelle
  imports Main
begin

section \<open>The data model of ve.dm.Transaction\<close>

text \<open>
  Linear model items. A character carries the store indices of its annotations; an
  element marker is either an opening marker \<^verbatim>\<open>{ type: 'T', attributes: ... }\<close> or a
  closing marker \<^verbatim>\<open>{ type: '/T' }\<close>.
\<close>

datatype jsval = JNum int | JStr string | JBool bool

datatype item =
    Character char "nat list"
  | OpenElement string "(string \<times> jsval) list"
  | CloseElement string

text \<open>
  A metadata cell is \<^verbatim>\<open>undefined\<close> (\<open>None\<close>) or an array of metadata elements.
\<close>

type_synonym cell = "item list option"

datatype annotate_method = SetMethod | ClearMethod

datatype annotate_bias = StartBias | StopBias

text \<open>
  The six operation variants, keyed in the source by the \<^verbatim>\<open>type\<close> property. Optional
  properties (\<^verbatim>\<open>removeMetadata\<close>, \<^verbatim>\<open>insertMetadata\<close>, \<^verbatim>\<open>insertedDataOffset\<close>,
  \<^verbatim>\<open>insertedDataLength\<close>, and the \<^verbatim>\<open>from\<close>/\<^verbatim>\<open>to\<close> of an attribute change) are
  options: \<open>None\<close> stands for a property that is absent or \<^verbatim>\<open>undefined\<close>.
  Argument order of \<open>Replace\<close>: remove, insert, removeMetadata, insertMetadata,
  insertedDataOffset, insertedDataLength. Of \<open>ReplaceMetadata\<close>: remove, insert. Of
  \<open>Attribute\<close>: key, from, to. Of \<open>Annotate\<close>: method, bias, index.
\<close>

datatype operation =
    Retain nat
  | RetainMetadata nat
  | Replace "item list" "item list" "cell list option" "cell list option"
      "int option" "int option"
  | ReplaceMetadata "item list" "item list"
  | Attribute string "jsval option" "jsval option"
  | Annotate annotate_method annotate_bias nat

record transaction =
  operations :: "operation list"
  applied :: bool

text \<open>\<^verbatim>\<open>new ve.dm.Transaction( operations )\<close>: the given operations, not yet applied.\<close>

definition Transaction :: "operation list \<Rightarrow> transaction" where
  "Transaction ops = \<lparr>operations = ops, applied = False\<rparr>"

text \<open>
  Modelled from the spec: \<^verbatim>\<open>ve.Range\<close> is defined outside ve.dm.Transaction.js. The
  specification describes it as an immutable \<^verbatim>\<open>{start, end}\<close> with \<^verbatim>\<open>isCollapsed()\<close> and
  \<^verbatim>\<open>isBackwards()\<close> that "supports flipped construction when backwards". The source
  constructs it as \<^verbatim>\<open>new ve.Range( from, to )\<close>, builds a backwards range by passing the
  larger offset first (\<^verbatim>\<open>new ve.Range( end, start )\<close> in \<^verbatim>\<open>translateRange\<close>), and reads
  \<^verbatim>\<open>range.start\<close> and \<^verbatim>\<open>range.end\<close> as the lower and the upper end. So a range is the
  pair of offsets it was constructed from; \<^verbatim>\<open>start\<close> is the smaller and \<^verbatim>\<open>end\<close> the larger
  of the two, the range is backwards when \<^verbatim>\<open>from > to\<close>, and collapsed when
  \<^verbatim>\<open>from = to\<close>. (\<open>finish\<close> stands for \<^verbatim>\<open>end\<close>.)
\<close>

datatype range = Range (rangeFrom: int) (rangeTo: int)

definition start :: "range \<Rightarrow> int" where
  "start r = min (rangeFrom r) (rangeTo r)"

definition finish :: "range \<Rightarrow> int" where
  "finish r = max (rangeFrom r) (rangeTo r)"

definition isCollapsed :: "range \<Rightarrow> bool" where
  "isCollapsed r \<longleftrightarrow> rangeFrom r = rangeTo r"


section \<open>Transaction transforms\<close>

subsection \<open>reversed\<close>

text \<open>
  \<^verbatim>\<open>ve.dm.Transaction.reversers\<close>, applied to one operation the way the inner loop of
  \<^verbatim>\<open>reversed\<close> does: the new operation is a copy of the old one in which every property
  named by the table entry of the operation's type is overwritten, either by another
  property of the original operation or by the image of its own value. Types without an
  entry (\<^verbatim>\<open>retain\<close>, \<^verbatim>\<open>retainMetadata\<close>) are copied.
\<close>

fun reverseMethod :: "annotate_method \<Rightarrow> annotate_method" where
  "reverseMethod SetMethod = ClearMethod"
| "reverseMethod ClearMethod = SetMethod"

fun reverseOp :: "operation \<Rightarrow> operation" where
  "reverseOp (Annotate m b i) = Annotate (reverseMethod m) b i"
| "reverseOp (Attribute k f t) = Attribute k t f"
| "reverseOp (Replace rem ins remMeta insMeta ido idl) = Replace ins rem insMeta remMeta ido idl"
| "reverseOp (ReplaceMetadata rem ins) = ReplaceMetadata ins rem"
| "reverseOp (Retain n) = Retain n"
| "reverseOp (RetainMetadata n) = RetainMetadata n"

text \<open>
  The outer loop of \<^verbatim>\<open>reversed\<close>: walk the operations from index 0, pushing each
  reversed operation onto the operations of a fresh transaction.
\<close>

fun reversedLoop :: "operation list \<Rightarrow> operation list \<Rightarrow> operation list" where
  "reversedLoop [] acc = acc"
| "reversedLoop (x # xs) acc = reversedLoop xs (acc @ [reverseOp x])"

definition reversed :: "transaction \<Rightarrow> transaction" where
  "reversed t = (Transaction []) \<lparr>operations := reversedLoop (operations t) []\<rparr>"

subsection \<open>translateOffset and translateRange\<close>




section \<open>The rebase engine\<close>

datatype error =
    InvalidRetainLength int
  | NegativeRetainLength
  | InvalidRange int int
  | ReplaceAfterReplaceMetadata
  | CannotRemoveMetadataFromEmptyList
  | RangeOutOfBounds
  | MetadataIndexOutOfBounds
  | InvalidArrayLength
  | TypeError

text \<open>
  \<^verbatim>\<open>clone\<close>, on values: a fresh transaction (so \<^verbatim>\<open>applied\<close> is false) with a copy of
  the operations. What the copy means for the objects involved is modelled further down,
  in the section on transactions as objects.
\<close>

definition clone :: "transaction \<Rightarrow> transaction" where
  "clone t = (Transaction []) \<lparr>operations := operations t\<rparr>"

text \<open>
  The result of \<^verbatim>\<open>getActiveRangeAndLengthDiff\<close>: \<^verbatim>\<open>{ start, end, diff }\<close>, where
  \<^verbatim>\<open>start\<close> and \<^verbatim>\<open>end\<close> stay \<^verbatim>\<open>undefined\<close> (\<open>None\<close>) until an active operation is
  met.
\<close>

record activeInfo =
  activeStart :: "int option"
  activeEnd :: "int option"
  diff :: int

fun isRetainOp :: "operation \<Rightarrow> bool" where
  "isRetainOp (Retain n) = True"
| "isRetainOp x = False"

fun isRetainMetadataOp :: "operation \<Rightarrow> bool" where
  "isRetainMetadataOp (RetainMetadata n) = True"
| "isRetainMetadataOp x = False"

fun isReplaceOp :: "operation \<Rightarrow> bool" where
  "isReplaceOp (Replace rem ins remMeta insMeta ido idl) = True"
| "isReplaceOp x = False"

fun isReplaceMetadataOp :: "operation \<Rightarrow> bool" where
  "isReplaceMetadataOp (ReplaceMetadata rem ins) = True"
| "isReplaceMetadataOp x = False"

fun isAttributeOp :: "operation \<Rightarrow> bool" where
  "isAttributeOp (Attribute k f t) = True"
| "isAttributeOp x = False"

text \<open>
  The loop of \<^verbatim>\<open>getActiveRangeAndLengthDiff\<close>; the loop variables \<^verbatim>\<open>start\<close>,
  \<^verbatim>\<open>end\<close>, \<^verbatim>\<open>offset\<close>, \<^verbatim>\<open>annotations\<close> and \<^verbatim>\<open>diff\<close> are arguments. An
  \<^verbatim>\<open>annotate\<close> operation only moves the counter (\<^verbatim>\<open>continue\<close>).
\<close>

fun activeRangeLoop ::
  "operation list \<Rightarrow> int option \<Rightarrow> int option \<Rightarrow> int \<Rightarrow> int \<Rightarrow> int \<Rightarrow> activeInfo" where
  "activeRangeLoop [] st en offset annotations d =
     \<lparr>activeStart = st, activeEnd = en, diff = d\<rparr>"
| "activeRangeLoop (Annotate m b i # ops) st en offset annotations d =
     activeRangeLoop ops st en offset
       (annotations + (if b = StartBias then 1 else - 1)) d"
| "activeRangeLoop (x # ops) st en offset annotations d =
     (let active = (annotations > 0 \<or> (\<not> isRetainOp x \<and> \<not> isRetainMetadataOp x));
          st' = (if active \<and> st = None then Some offset else st);
          offset' = (case x of
                       Retain n \<Rightarrow> offset + int n
                     | Replace rem ins remMeta insMeta ido idl \<Rightarrow> offset + int (length rem)
                     | _ \<Rightarrow> offset);
          d' = (case x of
                  Replace rem ins remMeta insMeta ido idl \<Rightarrow>
                    d + (int (length ins) - int (length rem))
                | _ \<Rightarrow> d);
          en' = (if isAttributeOp x \<or> isReplaceMetadataOp x then Some (offset' + 1)
                 else if active then Some offset'
                 else en)
      in activeRangeLoop ops st' en' offset' annotations d')"

definition getActiveRangeAndLengthDiff :: "transaction \<Rightarrow> activeInfo" where
  "getActiveRangeAndLengthDiff t = activeRangeLoop (operations t) None None 0 0 0"

datatype place = AtStart | AtEnd

text \<open>JavaScript array read: \<^verbatim>\<open>undefined\<close> outside the array.\<close>

definition arrayGet :: "'a list \<Rightarrow> int \<Rightarrow> 'a option" where
  "arrayGet xs i = (if 0 \<le> i \<and> i < int (length xs) then Some (xs ! nat i) else None)"

text \<open>
  \<^verbatim>\<open>adjustRetain( ops, place, diff )\<close>. The source changes the list in place; here the
  changed list is returned, or the error thrown. \<^verbatim>\<open>ops.splice( i, 1 )\<close> drops the
  operation at \<open>i\<close>, \<^verbatim>\<open>ops.splice( start ? 0 : ops.length, 0, retain )\<close> puts a new retain
  first or last.
\<close>

definition adjustRetain :: "operation list \<Rightarrow> place \<Rightarrow> int \<Rightarrow> error + operation list" where
  "adjustRetain ops pl d =
     (let atStart = (pl = AtStart);
          i0 = (if atStart then 0 else int (length ops) - 1)
      in if d = 0 then Inr ops
         else
           let i = (if \<not> atStart \<and> (case arrayGet ops i0 of Some (RetainMetadata n) \<Rightarrow> True | _ \<Rightarrow> False)
                    then int (length ops) - 2 else i0)
           in case arrayGet ops i of
                Some (Retain n) \<Rightarrow>
                  (if int n + d < 0 then Inl NegativeRetainLength
                   else if int n + d = 0 then Inr (take (nat i) ops @ drop (nat i + 1) ops)
                   else Inr (ops[nat i := Retain (nat (int n + d))]))
              | _ \<Rightarrow>
                  (if d < 0 then Inl NegativeRetainLength
                   else Inr (if atStart then Retain (nat d) # ops else ops @ [Retain (nat d)])))"

text \<open>
  JavaScript \<^verbatim>\<open>a <= b\<close> on values that may be \<^verbatim>\<open>undefined\<close>: false as soon as one
  side is \<^verbatim>\<open>undefined\<close>.
\<close>

fun lessEqDefined :: "int option \<Rightarrow> int option \<Rightarrow> bool" where
  "lessEqDefined (Some a) (Some b) = (a \<le> b)"
| "lessEqDefined a b = False"

text \<open>
  The two \<^verbatim>\<open>adjustRetain\<close> calls of one branch of \<^verbatim>\<open>rebaseTransactions\<close>, in the
  order of the source: \<open>first\<close> is adjusted before \<open>second\<close>, and the first error thrown
  ends the call.
\<close>

definition adjustBoth ::
  "operation list \<Rightarrow> place \<Rightarrow> int \<Rightarrow> operation list \<Rightarrow> place \<Rightarrow> int \<Rightarrow>
   error + (operation list \<times> operation list)" where
  "adjustBoth first pl1 d1 second pl2 d2 =
     (case adjustRetain first pl1 d1 of
        Inl e \<Rightarrow> Inl e
      | Inr first' \<Rightarrow>
          (case adjustRetain second pl2 d2 of
             Inl e \<Rightarrow> Inl e
           | Inr second' \<Rightarrow> Inr (first', second')))"

text \<open>
  \<^verbatim>\<open>rebaseTransactions( transactionA, transactionB )\<close>. The result is the thrown error,
  or the returned pair: \<open>(None, None)\<close> is \<^verbatim>\<open>[ null, null ]\<close>.
\<close>

definition rebaseTransactions ::
  "transaction \<Rightarrow> transaction \<Rightarrow> error + (transaction option \<times> transaction option)" where
  "rebaseTransactions transactionA transactionB =
     (let a = clone transactionA;
          b = clone transactionB;
          infoA = getActiveRangeAndLengthDiff a;
          infoB = getActiveRangeAndLengthDiff b
      in if activeStart infoA = None \<or> activeStart infoB = None then
           (case adjustBoth (operations a) AtStart (diff infoB) (operations b) AtStart (diff infoA) of
              Inl e \<Rightarrow> Inl e
            | Inr (opsA, opsB) \<Rightarrow>
                Inr (Some (a\<lparr>operations := opsA\<rparr>), Some (b\<lparr>operations := opsB\<rparr>)))
         else if lessEqDefined (activeEnd infoA) (activeStart infoB) then
           (case adjustBoth (operations b) AtStart (diff infoA) (operations a) AtEnd (diff infoB) of
              Inl e \<Rightarrow> Inl e
            | Inr (opsB, opsA) \<Rightarrow>
                Inr (Some (a\<lparr>operations := opsA\<rparr>), Some (b\<lparr>operations := opsB\<rparr>)))
         else if lessEqDefined (activeEnd infoB) (activeStart infoA) then
           (case adjustBoth (operations a) AtStart (diff infoB) (operations b) AtEnd (diff infoA) of
              Inl e \<Rightarrow> Inl e
            | Inr (opsA, opsB) \<Rightarrow>
                Inr (Some (a\<lparr>operations := opsA\<rparr>), Some (b\<lparr>operations := opsB\<rparr>)))
         else Inr (None, None))"

text \<open>\<^verbatim>\<open>rebasedOnto( other, startmost )\<close>, on the receiver \<open>this\<close>.\<close>

definition rebasedOnto :: "transaction \<Rightarrow> transaction \<Rightarrow> bool \<Rightarrow> error + transaction option" where
  "rebasedOnto this other startmost =
     (if startmost
      then (case rebaseTransactions this other of Inl e \<Rightarrow> Inl e | Inr p \<Rightarrow> Inr (fst p))
      else (case rebaseTransactions other this of Inl e \<Rightarrow> Inl e | Inr p \<Rightarrow> Inr (snd p)))"

text \<open>\<^verbatim>\<open>isNoOp\<close>.\<close>

definition isNoOp :: "transaction \<Rightarrow> bool" where
  "isNoOp t =
     (if length (operations t) = 0 then True
      else if length (operations t) = 1 then isRetainOp (operations t ! 0)
      else if length (operations t) = 2 then
        isRetainOp (operations t ! 0) \<and> isRetainMetadataOp (operations t ! 1)
      else False)"

section \<open>Documents and collaborators\<close>

text \<open>
  The document as the transaction builder reads it: the linear data, the parallel
  metadata cells, and the offset at which the internal list node starts
  (\<^verbatim>\<open>doc.getInternalList().getListNode().getOuterRange().start\<close>).
\<close>

record document =
  data :: "item list"
  metadata :: "cell list"
  internalListStart :: int

text \<open>One entry of the result of \<^verbatim>\<open>doc.selectNodes( range, 'covered' )\<close>.\<close>

record selection =
  node :: nat
  selRange :: "range option"
  nodeRange :: range
  nodeOuterRange :: range

text \<open>The result of \<^verbatim>\<open>doc.fixupInsertion( data, offset )\<close>.\<close>

record insertion =
  insertionOffset :: int
  insertionRemove :: int
  insertionData :: "item list"
  insertedDataOffset :: "int option"
  insertedDataLength :: "int option"

text \<open>
  The collaborators whose code is outside the transaction class are parameters:
  \<^verbatim>\<open>doc.selectNodes\<close> (mode \<^verbatim>\<open>'covered'\<close>), \<^verbatim>\<open>node.canBeMergedWith\<close>,
  \<^verbatim>\<open>node.isContent\<close>, \<^verbatim>\<open>ve.dm.nodeFactory.isNodeDeletable\<close>,
  \<^verbatim>\<open>doc.fixupInsertion\<close> and \<^verbatim>\<open>ve.dm.MetaLinearData.static.merge\<close>. Nodes are
  identified by numbers.
\<close>

record collaborators =
  selectNodes :: "document \<Rightarrow> range \<Rightarrow> selection list"
  canBeMergedWith :: "nat \<Rightarrow> nat \<Rightarrow> bool"
  isContent :: "nat \<Rightarrow> bool"
  isNodeDeletable :: "string \<Rightarrow> bool"
  fixupInsertion :: "document \<Rightarrow> item list \<Rightarrow> int \<Rightarrow> insertion"
  mergeMetadata :: "cell list \<Rightarrow> cell list"

text \<open>
  Modelled from the spec: \<^verbatim>\<open>doc.getData( range )\<close> and \<^verbatim>\<open>doc.getMetadata( range )\<close>
  are defined outside ve.dm.Transaction.js; the specification has them return the items
  (the cells) of the document at \<^verbatim>\<open>[start, end)\<close>. Both ends are clamped to the array.
\<close>

definition sliceRange :: "'a list \<Rightarrow> range \<Rightarrow> 'a list" where
  "sliceRange xs r =
     (let s = max 0 (min (int (length xs)) (start r));
          e = max 0 (min (int (length xs)) (finish r))
      in take (nat e - nat s) (drop (nat s) xs))"

definition getData :: "document \<Rightarrow> range \<Rightarrow> item list" where
  "getData doc r = sliceRange (data doc) r"

definition getMetadata :: "document \<Rightarrow> range \<Rightarrow> cell list" where
  "getMetadata doc r = sliceRange (metadata doc) r"

text \<open>
  Modelled from the spec: \<^verbatim>\<open>doc.metadata.getData( offset )\<close>, the metadata cell at an
  offset; \<^verbatim>\<open>undefined\<close> outside the array.
\<close>

definition metadataAt :: "document \<Rightarrow> int \<Rightarrow> cell" where
  "metadataAt doc i = (case arrayGet (metadata doc) i of Some c \<Rightarrow> c | None \<Rightarrow> None)"

text \<open>
  \<^verbatim>\<open>ve.compare( cells, [] )\<close> and \<^verbatim>\<open>ve.compare( cells, new Array( n ) )\<close>: the
  comparison skips \<^verbatim>\<open>undefined\<close> entries and fails on any defined one, so it holds
  exactly for a list of \<^verbatim>\<open>undefined\<close> cells.
\<close>

definition isEmptyCells :: "cell list \<Rightarrow> bool" where
  "isEmptyCells cells = list_all (\<lambda>c. c = None) cells"

section \<open>Builder primitives\<close>

text \<open>
  A builder method works on \<^verbatim>\<open>this.operations\<close>. It is modelled as a function of the
  operations list that returns the value returned or the error thrown, together with
  the operations list as the method leaves it (also when it throws).
\<close>

type_synonym 'a outcome = "(error + 'a) \<times> operation list"

definition andThen ::
  "'a outcome \<Rightarrow> ('a \<Rightarrow> operation list \<Rightarrow> 'b outcome) \<Rightarrow> 'b outcome" where
  "andThen r f = (case r of (Inl e, ops) \<Rightarrow> (Inl e, ops) | (Inr v, ops) \<Rightarrow> f v ops)"

definition pushRetain :: "int \<Rightarrow> operation list \<Rightarrow> unit outcome" where
  "pushRetain len ops =
     (if len < 0 then (Inl (InvalidRetainLength len), ops)
      else if len \<noteq> 0 then
        (case arrayGet ops (int (length ops) - 1) of
           Some (Retain n) \<Rightarrow> (Inr (), butlast ops @ [Retain (n + nat len)])
         | _ \<Rightarrow> (Inr (), ops @ [Retain (nat len)]))
      else (Inr (), ops))"

definition pushRetainMetadata :: "int \<Rightarrow> operation list \<Rightarrow> unit outcome" where
  "pushRetainMetadata len ops =
     (if len < 0 then (Inl (InvalidRetainLength len), ops)
      else if len \<noteq> 0 then
        (case arrayGet ops (int (length ops) - 1) of
           Some (RetainMetadata n) \<Rightarrow> (Inr (), butlast ops @ [RetainMetadata (n + nat len)])
         | _ \<Rightarrow> (Inr (), ops @ [RetainMetadata (nat len)]))
      else (Inr (), ops))"

definition pushReplaceMetadata :: "item list \<Rightarrow> item list \<Rightarrow> operation list \<Rightarrow> unit outcome" where
  "pushReplaceMetadata rem ins ops =
     (if rem = [] \<and> ins = [] then (Inr (), ops)
      else (Inr (), ops @ [ReplaceMetadata rem ins]))"

text \<open>
  \<^verbatim>\<open>pushFinalRetain( doc, offset, metaOffset )\<close>; \<open>metaOffset\<close> is optional, and
  \<^verbatim>\<open>metaOffset || 0\<close> reads an absent one as 0.
\<close>

definition pushFinalRetain :: "document \<Rightarrow> int \<Rightarrow> int option \<Rightarrow> operation list \<Rightarrow> unit outcome" where
  "pushFinalRetain doc offset metaOffset ops =
     (let finalMetadata = metadataAt doc (int (length (data doc)));
          r = (if offset < int (length (data doc))
               then andThen (pushRetain (int (length (data doc)) - offset) ops)
                      (\<lambda>u ops1. (Inr (Some 0), ops1))
               else (Inr metaOffset, ops))
      in andThen r (\<lambda>metaOffset1 ops1.
           case finalMetadata of
             Some fm \<Rightarrow>
               (if length fm > 0
                then pushRetainMetadata
                       (int (length fm) - (case metaOffset1 of Some m \<Rightarrow> m | None \<Rightarrow> 0)) ops1
                else (Inr (), ops1))
           | None \<Rightarrow> (Inr (), ops1)))"

definition pushReplaceInternal ::
  "item list \<Rightarrow> item list \<Rightarrow> cell list option \<Rightarrow> cell list option \<Rightarrow>
   int option \<Rightarrow> int option \<Rightarrow> operation list \<Rightarrow> operation list" where
  "pushReplaceInternal rem ins removeMetadata insertMetadata ido idl ops =
     (if rem = [] \<and> ins = [] then ops
      else
        let withMetadata = (removeMetadata \<noteq> None \<and> insertMetadata \<noteq> None);
            withInserted = (ido \<noteq> None \<and> idl \<noteq> None)
        in ops @ [Replace rem ins
                    (if withMetadata then removeMetadata else None)
                    (if withMetadata then insertMetadata else None)
                    (if withInserted then ido else None)
                    (if withInserted then idl else None)])"

text \<open>
  The first part of \<^verbatim>\<open>pushReplace\<close>: decide what metadata the replace inserts. The
  result is \<^verbatim>\<open>insertMetadata\<close>, \<^verbatim>\<open>extraMetadata\<close> and \<^verbatim>\<open>isInsertEmpty\<close> as they stand
  after the first \<^verbatim>\<open>if\<close>/\<^verbatim>\<open>else if\<close>. \<^verbatim>\<open>ve.batchSplice( insertMetadata, 1, 0,
  new Array( insert.length - 1 ) )\<close> puts \<^verbatim>\<open>undefined\<close> cells after the first cell.
\<close>

definition collapseMetadata ::
  "collaborators \<Rightarrow> item list \<Rightarrow> cell list \<Rightarrow> cell list option \<Rightarrow>
   cell list option \<times> cell \<times> bool" where
  "collapseMetadata env ins removeMetadata insertMetadata =
     (let isRemoveEmpty = isEmptyCells removeMetadata;
          isInsertEmpty = (case insertMetadata of None \<Rightarrow> False | Some m \<Rightarrow> isEmptyCells m)
      in if insertMetadata = None \<and> \<not> isRemoveEmpty then
           (let merged = mergeMetadata env removeMetadata
            in if ins = [] then
                 (Some [], (case arrayGet merged 0 of Some c \<Rightarrow> c | None \<Rightarrow> None), True)
               else
                 (let padded = take 1 merged @ replicate (length ins - 1) None @ drop 1 merged
                  in (Some padded, None, isEmptyCells padded)))
         else if isInsertEmpty \<and> isRemoveEmpty then (None, None, isInsertEmpty)
         else (insertMetadata, None, isInsertEmpty))"

text \<open>
  The condition of the first merge \<^verbatim>\<open>if\<close> of \<^verbatim>\<open>pushReplace\<close>: the last operation is a
  \<^verbatim>\<open>replaceMetadata\<close> that only inserts, and the one before it is a \<^verbatim>\<open>replace\<close> that
  inserts nothing.
\<close>

definition fallsThrough :: "operation list \<Rightarrow> bool" where
  "fallsThrough ops =
     (case arrayGet ops (int (length ops) - 1) of
        Some (ReplaceMetadata lrem lins) \<Rightarrow>
          lins \<noteq> [] \<and> lrem = [] \<and>
          (case arrayGet ops (int (length ops) - 2) of
             Some (Replace prem pins premMeta pinsMeta pido pidl) \<Rightarrow> pins = []
           | _ \<Rightarrow> False)
      | _ \<Rightarrow> False)"

text \<open>The end of \<^verbatim>\<open>pushReplace\<close>: push the replace, then the extra metadata if any.\<close>

definition finishReplace ::
  "item list \<Rightarrow> item list \<Rightarrow> cell list \<Rightarrow> cell list option \<Rightarrow> cell \<Rightarrow>
   int option \<Rightarrow> int option \<Rightarrow> operation list \<Rightarrow> unit outcome" where
  "finishReplace rem ins removeMetadata insertMetadata extraMetadata ido idl ops =
     (let ops1 = pushReplaceInternal rem ins (Some removeMetadata) insertMetadata ido idl ops
      in case extraMetadata of
           Some extra \<Rightarrow> pushReplaceMetadata [] extra ops1
         | None \<Rightarrow> (Inr (), ops1))"

text \<open>
  \<^verbatim>\<open>pushReplace\<close>. \<open>ops1\<close> is \<^verbatim>\<open>this.operations\<close> after the \<^verbatim>\<open>pop\<close> of the first
  merge \<^verbatim>\<open>if\<close>, and its last element is \<^verbatim>\<open>lastOp\<close>. In the first recursive call,
  \<^verbatim>\<open>new Array( insert.length - mergedMetadata.length )\<close> throws a RangeError when the
  length is negative; the \<^verbatim>\<open>pop\<close> before it has happened by then.
\<close>

function pushReplace ::
  "collaborators \<Rightarrow> document \<Rightarrow> int \<Rightarrow> int \<Rightarrow> item list \<Rightarrow> cell list option \<Rightarrow>
   int option \<Rightarrow> int option \<Rightarrow> operation list \<Rightarrow> unit outcome" where
  "pushReplace env doc offset removeLength ins insertMetadataArg ido idl ops =
     (if removeLength = 0 \<and> ins = [] then (Inr (), ops)
      else
        let rng = Range offset (offset + removeLength);
            rem = getData doc rng;
            removeMetadata = getMetadata doc rng;
            collapsed = collapseMetadata env ins removeMetadata insertMetadataArg;
            insertMetadata = fst collapsed;
            extraMetadata = fst (snd collapsed);
            isInsertEmpty = snd (snd collapsed);
            mergedMetadata =
              (if fallsThrough ops
               then (case last ops of ReplaceMetadata lrem lins \<Rightarrow> [Some lins] | _ \<Rightarrow> [])
               else []);
            ops1 = (if fallsThrough ops then butlast ops else ops)
        in case arrayGet ops1 (int (length ops1) - 1) of
             Some (Replace lrem lins lremMeta linsMeta lido lidl) \<Rightarrow>
               if \<not> (lins \<noteq> [] \<and> insertMetadata \<noteq> None) \<and> lido = None \<and>
                  extraMetadata = None \<and>
                  \<not> (mergedMetadata \<noteq> [] \<and> insertMetadata \<noteq> None \<and> \<not> isInsertEmpty)
               then
                 (if (insertMetadata = None \<or> isInsertEmpty) \<and>
                     length ins < length mergedMetadata
                  then (Inl InvalidArrayLength, butlast ops1)
                  else pushReplace env doc
                         (offset - int (length lrem))
                         (int (length lrem) + removeLength)
                         (lins @ ins)
                         (Some ((case linsMeta of
                                   Some m \<Rightarrow> m
                                 | None \<Rightarrow> replicate (length lins) None)
                                @ mergedMetadata
                                @ (if insertMetadata = None \<or> isInsertEmpty
                                   then replicate (length ins - length mergedMetadata) None
                                   else (case insertMetadata of Some m \<Rightarrow> m | None \<Rightarrow> []))))
                         ido idl (butlast ops1))
               else if lins = [] \<and> ins = [] \<and>
                       (lremMeta = None \<or> mergedMetadata \<noteq> []) \<and>
                       (insertMetadata = None \<or> extraMetadata \<noteq> None)
               then pushReplace env doc
                      (offset - int (length lrem))
                      (int (length lrem) + removeLength)
                      [] None None None (butlast ops1)
               else finishReplace rem ins removeMetadata insertMetadata extraMetadata ido idl ops1
           | Some (ReplaceMetadata lrem lins) \<Rightarrow> (Inl ReplaceAfterReplaceMetadata, ops1)
           | _ \<Rightarrow> finishReplace rem ins removeMetadata insertMetadata extraMetadata ido idl ops1)"
  by pat_completeness auto
termination
proof -
  have A: "0 < length xs" if "arrayGet xs i = Some x" for xs :: "operation list" and i x
    using that by (cases xs) (auto simp: arrayGet_def split: if_splits)
  have B: "0 < length xs" if "arrayGet (butlast xs) i = Some x"
    for xs :: "operation list" and i x
    using that by (cases xs) (auto simp: arrayGet_def split: if_splits)
  show ?thesis
    by (relation "measure (\<lambda>(env, doc, offset, removeLength, ins, im, ido, idl, ops). length ops)")
       (auto split: if_splits dest: A B)
qed

text \<open>
  Modelled from the spec: the element tests of the linear data
  (\<^verbatim>\<open>isElementData\<close>, \<^verbatim>\<open>isCloseElementData\<close>, \<^verbatim>\<open>getType\<close>) are defined outside
  ve.dm.Transaction.js. The test that \<^verbatim>\<open>addSafeRemoveOps\<close> makes at offset \<open>i\<close> is
  \<^verbatim>\<open>isElementData( i ) && !isNodeDeletable( getType( i ) )\<close>, followed by
  \<^verbatim>\<open>!isCloseElementData( i )\<close>: the result is \<open>Some True\<close> for the opening marker of an
  undeletable node, \<open>Some False\<close> for its closing marker, \<open>None\<close> for anything else.
\<close>

definition undeletableMarker :: "collaborators \<Rightarrow> document \<Rightarrow> int \<Rightarrow> bool option" where
  "undeletableMarker env doc i =
     (case arrayGet (data doc) i of
        Some (OpenElement ty attrs) \<Rightarrow> if isNodeDeletable env ty then None else Some True
      | Some (CloseElement ty) \<Rightarrow> if isNodeDeletable env ty then None else Some False
      | _ \<Rightarrow> None)"

text \<open>\<^verbatim>\<open>if ( queuedRetain ) { this.pushRetain( queuedRetain ); }\<close>\<close>

definition pushQueuedRetain :: "int option \<Rightarrow> operation list \<Rightarrow> unit outcome" where
  "pushQueuedRetain queuedRetain ops =
     (case queuedRetain of
        Some n \<Rightarrow> if n \<noteq> 0 then pushRetain n ops else (Inr (), ops)
      | None \<Rightarrow> (Inr (), ops))"

text \<open>
  The loop of \<^verbatim>\<open>addSafeRemoveOps\<close>, from \<open>i\<close> up to \<open>removeEnd\<close>. \<open>insMeta\<close> is the
  argument \<^verbatim>\<open>removeMetadata ? [] : undefined\<close> of \<^verbatim>\<open>pushReplace\<close>. The loop returns
  \<^verbatim>\<open>removeStart\<close>, \<^verbatim>\<open>retainStart\<close> and \<^verbatim>\<open>queuedRetain\<close> as it leaves them.
\<close>

function addSafeRemoveLoop ::
  "collaborators \<Rightarrow> document \<Rightarrow> cell list option \<Rightarrow> int \<Rightarrow> int \<Rightarrow> int \<Rightarrow> int \<Rightarrow>
   int option \<Rightarrow> int \<Rightarrow> operation list \<Rightarrow> (int \<times> int \<times> int option) outcome" where
  "addSafeRemoveLoop env doc insMeta i removeEnd removeStart retainStart queuedRetain depth ops =
     (if i < removeEnd then
        (case undeletableMarker env doc i of
           Some True \<Rightarrow>
             (if depth = 0 then
                (case pushQueuedRetain queuedRetain ops of
                   (Inl e, ops1) \<Rightarrow> (Inl e, ops1)
                 | (Inr u, ops1) \<Rightarrow>
                     (case pushReplace env doc removeStart (i - removeStart) [] insMeta
                             None None ops1 of
                        (Inl e, ops2) \<Rightarrow> (Inl e, ops2)
                      | (Inr u', ops2) \<Rightarrow>
                          addSafeRemoveLoop env doc insMeta (i + 1) removeEnd removeStart i
                            queuedRetain (depth + 1) ops2))
              else addSafeRemoveLoop env doc insMeta (i + 1) removeEnd removeStart retainStart
                     queuedRetain (depth + 1) ops)
         | Some False \<Rightarrow>
             (if depth - 1 = 0 then
                addSafeRemoveLoop env doc insMeta (i + 1) removeEnd (i + 1) retainStart
                  (Some (i + 1 - retainStart)) (depth - 1) ops
              else addSafeRemoveLoop env doc insMeta (i + 1) removeEnd removeStart retainStart
                     queuedRetain (depth - 1) ops)
         | None \<Rightarrow>
             addSafeRemoveLoop env doc insMeta (i + 1) removeEnd removeStart retainStart
               queuedRetain depth ops)
      else (Inr (removeStart, retainStart, queuedRetain), ops))"
  by pat_completeness auto
termination
  by (relation "measure (\<lambda>(env, doc, insMeta, i, removeEnd, rest). nat (removeEnd - i))") auto

definition addSafeRemoveOps ::
  "collaborators \<Rightarrow> document \<Rightarrow> int \<Rightarrow> int \<Rightarrow> bool \<Rightarrow> operation list \<Rightarrow> int outcome" where
  "addSafeRemoveOps env doc removeStart removeEnd removeMetadata ops =
     (let insMeta = (if removeMetadata then Some [] else None)
      in andThen (addSafeRemoveLoop env doc insMeta removeStart removeEnd removeStart removeStart
                    None 0 ops)
           (\<lambda>(removeStart', retainStart', queuedRetain) ops1.
              if removeEnd - removeStart' \<noteq> 0 then
                andThen (pushQueuedRetain queuedRetain ops1) (\<lambda>u ops2.
                andThen (pushReplace env doc removeStart' (removeEnd - removeStart') [] insMeta
                           None None ops2) (\<lambda>u' ops3.
                (Inr removeEnd, ops3)))
              else (Inr retainStart', ops1)))"

definition pushInsertion ::
  "collaborators \<Rightarrow> document \<Rightarrow> int \<Rightarrow> int \<Rightarrow> item list \<Rightarrow> operation list \<Rightarrow> int outcome" where
  "pushInsertion env doc currentOffset insertOffset newData ops =
     (let ins = fixupInsertion env doc newData insertOffset
      in andThen (pushRetain (insertionOffset ins - currentOffset) ops) (\<lambda>u ops1.
         andThen (pushReplace env doc (insertionOffset ins) (insertionRemove ins)
                    (insertionData ins) None (insertedDataOffset ins) (insertedDataLength ins)
                    ops1) (\<lambda>u' ops2.
         (Inr (insertionOffset ins + insertionRemove ins), ops2))))"

text \<open>
  The loop of \<^verbatim>\<open>pushRemoval\<close> over a selection that cannot be merged. \<open>pending\<close> is
  the pair \<^verbatim>\<open>removeStart\<close>, \<^verbatim>\<open>removeEnd\<close>, both \<^verbatim>\<open>null\<close> (\<open>None\<close>) until the first
  removal. The empty list is the code after the loop.
\<close>

fun pushRemovalLoop ::
  "collaborators \<Rightarrow> document \<Rightarrow> bool \<Rightarrow> selection list \<Rightarrow> int \<Rightarrow> (int \<times> int) option \<Rightarrow>
   operation list \<Rightarrow> int outcome" where
  "pushRemovalLoop env doc removeMetadata [] offset pending ops =
     (case pending of
        Some (removeStart, removeEnd) \<Rightarrow>
          (case pushRetain (removeStart - offset) ops of
             (Inl e, ops1) \<Rightarrow> (Inl e, ops1)
           | (Inr u, ops1) \<Rightarrow> addSafeRemoveOps env doc removeStart removeEnd removeMetadata ops1)
      | None \<Rightarrow> (Inr offset, ops))"
| "pushRemovalLoop env doc removeMetadata (sel # rest) offset pending ops =
     (let covered = (case selRange sel of None \<Rightarrow> nodeOuterRange sel | Some r \<Rightarrow> r);
          nodeStart = start covered;
          nodeEnd = finish covered
      in case pending of
           None \<Rightarrow>
             pushRemovalLoop env doc removeMetadata rest offset (Some (nodeStart, nodeEnd)) ops
         | Some (removeStart, removeEnd) \<Rightarrow>
             if removeEnd = nodeStart then
               pushRemovalLoop env doc removeMetadata rest offset (Some (removeStart, nodeEnd)) ops
             else
               (case pushRetain (removeStart - offset) ops of
                  (Inl e, ops1) \<Rightarrow> (Inl e, ops1)
                | (Inr u, ops1) \<Rightarrow>
                    (case addSafeRemoveOps env doc removeStart removeEnd removeMetadata ops1 of
                       (Inl e, ops2) \<Rightarrow> (Inl e, ops2)
                     | (Inr offset', ops2) \<Rightarrow>
                         pushRemovalLoop env doc removeMetadata rest offset'
                           (Some (nodeStart, nodeEnd)) ops2)))"

definition pushRemoval ::
  "collaborators \<Rightarrow> document \<Rightarrow> int \<Rightarrow> range \<Rightarrow> bool \<Rightarrow> operation list \<Rightarrow> int outcome" where
  "pushRemoval env doc currentOffset r removeMetadata ops =
     (if isCollapsed r then
        andThen (pushRetain (start r - currentOffset) ops) (\<lambda>u ops1. (Inr (start r), ops1))
      else
        let sels = selectNodes env doc r
        in if length sels = 0 then (Inl (InvalidRange (start r) (finish r)), ops)
           else
             let first = sels ! 0;
                 final = sels ! (length sels - 1)
             in if canBeMergedWith env (node first) (node final) then
                  (let removeStart =
                         (if selRange first = None \<and> selRange final = None
                          then start (nodeOuterRange first)
                          else start (case selRange first of
                                        Some fr \<Rightarrow> fr
                                      | None \<Rightarrow> if isContent env (node first)
                                                then nodeOuterRange first
                                                else nodeRange first));
                       removeEnd =
                         (if selRange first = None \<and> selRange final = None
                          then finish (nodeOuterRange final)
                          else finish (case selRange final of
                                         Some lr \<Rightarrow> lr
                                       | None \<Rightarrow> if isContent env (node final)
                                                 then nodeOuterRange final
                                                 else nodeRange final))
                   in andThen (pushRetain (removeStart - currentOffset) ops) (\<lambda>u ops1.
                        addSafeRemoveOps env doc removeStart removeEnd removeMetadata ops1))
                else pushRemovalLoop env doc removeMetadata sels currentOffset None ops)"

section \<open>Constructors\<close>

text \<open>
  A constructor builds on the operations of a fresh transaction and returns the
  transaction, or throws.
\<close>

definition built :: "'a outcome \<Rightarrow> error + transaction" where
  "built r = (case r of (Inl e, ops) \<Rightarrow> Inl e | (Inr v, ops) \<Rightarrow> Inr (Transaction ops))"

definition emptyParagraph :: "item list" where
  "emptyParagraph = [OpenElement ''paragraph'' [], CloseElement ''paragraph'']"

definition newFromRemoval ::
  "collaborators \<Rightarrow> document \<Rightarrow> range \<Rightarrow> bool \<Rightarrow> error + transaction" where
  "newFromRemoval env doc r removeMetadata =
     built
       (andThen (pushRemoval env doc 0 r removeMetadata []) (\<lambda>endOffset ops1.
        andThen (if start r = 0 \<and> finish r \<ge> internalListStart doc
                 then pushInsertion env doc endOffset endOffset emptyParagraph ops1
                 else (Inr endOffset, ops1)) (\<lambda>endOffset' ops2.
        pushFinalRetain doc endOffset' None ops2)))"

definition newFromInsertion ::
  "collaborators \<Rightarrow> document \<Rightarrow> int \<Rightarrow> item list \<Rightarrow> error + transaction" where
  "newFromInsertion env doc offset newData =
     built
       (andThen (pushInsertion env doc 0 offset newData []) (\<lambda>endOffset ops1.
        pushFinalRetain doc endOffset None ops1))"

definition newFromReplacement ::
  "collaborators \<Rightarrow> document \<Rightarrow> range \<Rightarrow> item list \<Rightarrow> bool \<Rightarrow> error + transaction" where
  "newFromReplacement env doc r newData removeMetadata =
     built
       (andThen (pushRemoval env doc 0 r removeMetadata []) (\<lambda>endOffset ops1.
        andThen (pushInsertion env doc endOffset endOffset newData ops1) (\<lambda>endOffset' ops2.
        pushFinalRetain doc endOffset' None ops2)))"

text \<open>
  \<^verbatim>\<open>Array.prototype.slice( from, to )\<close>: a negative index counts from the end, and
  both indices are clamped to the array.
\<close>

definition arraySlice :: "'a list \<Rightarrow> int \<Rightarrow> int \<Rightarrow> 'a list" where
  "arraySlice xs from to =
     (let n = int (length xs);
          k = (if from < 0 then max (n + from) 0 else min from n);
          final = (if to < 0 then max (n + to) 0 else min to n)
      in take (nat (final - k)) (drop (nat k) xs))"

text \<open>\<^verbatim>\<open>data.getData( offset ) || []\<close>, and \<^verbatim>\<open>doc.getMetadata()[ offset ] || []\<close>.\<close>

definition elementsAt :: "document \<Rightarrow> int \<Rightarrow> item list" where
  "elementsAt doc offset = (case metadataAt doc offset of Some xs \<Rightarrow> xs | None \<Rightarrow> [])"

definition newFromMetadataInsertion ::
  "document \<Rightarrow> int \<Rightarrow> int \<Rightarrow> item list \<Rightarrow> error + transaction" where
  "newFromMetadataInsertion doc offset index newElements =
     (let elements = elementsAt doc offset
      in if length newElements = 0 then Inr (Transaction [])
         else built
           (andThen (pushRetain offset []) (\<lambda>u ops1.
            andThen (pushRetainMetadata index ops1) (\<lambda>u ops2.
            andThen (pushReplaceMetadata [] newElements ops2) (\<lambda>u ops3.
            andThen (pushRetainMetadata (int (length elements) - index) ops3) (\<lambda>u ops4.
            pushFinalRetain doc offset (Some (int (length elements))) ops4))))))"

definition newFromMetadataRemoval :: "document \<Rightarrow> int \<Rightarrow> range \<Rightarrow> error + transaction" where
  "newFromMetadataRemoval doc offset r =
     (let elements = elementsAt doc offset
      in if length elements = 0 then Inl CannotRemoveMetadataFromEmptyList
         else if start r < 0 \<or> finish r > int (length elements) then Inl RangeOutOfBounds
         else
           let sel = arraySlice elements (start r) (finish r)
           in if length sel = 0 then Inr (Transaction [])
              else built
                (andThen (pushRetain offset []) (\<lambda>u ops1.
                 andThen (pushRetainMetadata (start r) ops1) (\<lambda>u ops2.
                 andThen (pushReplaceMetadata sel [] ops2) (\<lambda>u ops3.
                 andThen (pushRetainMetadata (int (length elements) - finish r) ops3) (\<lambda>u ops4.
                 pushFinalRetain doc offset (Some (int (length elements))) ops4))))))"

text \<open>
  \<^verbatim>\<open>newFromMetadataElementReplacement\<close>. \<^verbatim>\<open>oldElement = elements[ index ]\<close> is
  \<^verbatim>\<open>undefined\<close> for an index outside the array; it is used only after
  \<^verbatim>\<open>pushRetainMetadata( index )\<close> has returned.
\<close>

definition newFromMetadataElementReplacement ::
  "document \<Rightarrow> int \<Rightarrow> int \<Rightarrow> item \<Rightarrow> error + transaction" where
  "newFromMetadataElementReplacement doc offset index newElement =
     (let elements = elementsAt doc offset
      in if index \<ge> int (length elements) then Inl MetadataIndexOutOfBounds
         else
           let oldElement = arrayGet elements index
           in built
                (andThen (pushRetain offset []) (\<lambda>u ops1.
                 andThen (pushRetainMetadata index ops1) (\<lambda>u ops2.
                 andThen (case oldElement of
                            Some old \<Rightarrow> pushReplaceMetadata [old] [newElement] ops2
                          | None \<Rightarrow> (Inl TypeError, ops2)) (\<lambda>u ops3.
                 andThen (pushRetainMetadata (int (length elements) - index - 1) ops3) (\<lambda>u ops4.
                 pushFinalRetain doc offset (Some (int (length elements))) ops4))))))"

section \<open>Predicates used to state the properties\<close>





text \<open>Example transactions over the document \<^verbatim>\<open>a b\<close>.\<close>

definition removeSecond :: transaction where
  "removeSecond =
     Transaction [Retain 1, Replace [Character CHR ''b'' []] [] None None None None]"



text \<open>More example transactions over the document \<^verbatim>\<open>a b\<close>.\<close>

definition insertX :: transaction where
  "insertX =
     Transaction [Retain 1, Replace [] [Character CHR ''x'' []] None None None None, Retain 1]"

definition insertYZ :: transaction where
  "insertYZ =
     Transaction [Retain 1,
                  Replace [] [Character CHR ''y'' [], Character CHR ''z'' []] None None None None,
                  Retain 1]"

definition removeFirst :: transaction where
  "removeFirst =
     Transaction [Replace [Character CHR ''a'' []] [] None None None None, Retain 1]"

definition replaceFirstBy :: transaction where
  "replaceFirstBy =
     Transaction [Replace [Character CHR ''a'' []] [Character CHR ''x'' []] None None None None,
                  Retain 1]"


declare pushReplace.simps [simp del]

declare addSafeRemoveLoop.simps [simp del]

section \<open>Example documents and collaborators\<close>

text \<open>
  Modelled from the spec: \<^verbatim>\<open>ve.dm.MetaLinearData.static.merge\<close> is defined outside
  ve.dm.Transaction.js. The specification has it merge the removed metadata cells into one
  cell by concatenation; the result is an array holding that one cell.
\<close>

definition mergeCells :: "cell list \<Rightarrow> cell list" where
  "mergeCells cells =
     (if list_all (\<lambda>c. c = None) cells then [None]
      else [Some (concat (map (\<lambda>c. case c of Some xs \<Rightarrow> xs | None \<Rightarrow> []) cells))])"

text \<open>
  The document \<^verbatim>\<open><paragraph>a</paragraph><internalList></internalList>\<close>, with one
  metadata element in front of the paragraph. Its tree has the paragraph as node 1, with
  outer range \<open>[0, 3)\<close> and inner range \<open>[1, 2)\<close>.
\<close>

definition alienMeta :: item where
  "alienMeta = OpenElement ''alienMeta'' []"

definition paragraphDoc :: document where
  "paragraphDoc =
     \<lparr>data = [OpenElement ''paragraph'' [], Character CHR ''a'' [], CloseElement ''paragraph'',
              OpenElement ''internalList'' [], CloseElement ''internalList''],
      metadata = [Some [alienMeta], None, None, None, None, None],
      internalListStart = 3\<rparr>"

text \<open>The same document with one more metadata element, in front of the character.\<close>

definition annotatedDoc :: document where
  "annotatedDoc =
     paragraphDoc\<lparr>metadata := [Some [alienMeta], Some [alienMeta], None, None, None, None]\<rparr>"

text \<open>
  Collaborators for \<open>paragraphDoc\<close>: \<^verbatim>\<open>selectNodes\<close> knows the paragraph, covered
  whole by the range \<open>[0, 3)\<close> and in part by the range \<open>[1, 2)\<close>; a node can be merged
  with itself; the internal list cannot be deleted; \<^verbatim>\<open>fixupInsertion\<close> finds nothing to
  fix up.
\<close>

definition paragraphCollaborators :: collaborators where
  "paragraphCollaborators =
     \<lparr>selectNodes = (\<lambda>doc r.
         if r = Range 0 3 then
           [\<lparr>node = 1, selRange = None, nodeRange = Range 1 2, nodeOuterRange = Range 0 3\<rparr>]
         else if r = Range 1 2 then
           [\<lparr>node = 1, selRange = Some (Range 1 2), nodeRange = Range 1 2,
             nodeOuterRange = Range 0 3\<rparr>]
         else []),
      canBeMergedWith = (\<lambda>m n. m = n),
      isContent = (\<lambda>n. False),
      isNodeDeletable = (\<lambda>ty. ty \<noteq> ''internalList''),
      fixupInsertion = (\<lambda>doc newData offset.
         \<lparr>insertionOffset = offset, insertionRemove = 0, insertionData = newData,
          insertedDataOffset = Some 0, insertedDataLength = Some (int (length newData))\<rparr>),
      mergeMetadata = mergeCells\<rparr>"

section \<open>Transactions as objects\<close>

text \<open>
  \<^verbatim>\<open>rebaseTransactions\<close> works on clones and changes them in place. To say what that
  does to the transactions it is given, the objects involved are put into a store: a
  transaction object holds a reference to its operations array and its \<^verbatim>\<open>applied\<close>
  flag, an array holds references to operation objects, and an operation object holds an
  operation. A reference is an index into the store; a new object goes to the end of the
  store.
\<close>

datatype object =
    TransactionObject nat bool
  | ArrayObject "nat list"
  | OperationObject operation

type_synonym store = "object list"

type_synonym 'a effect = "(error + 'a) \<times> store"

definition lookup :: "store \<Rightarrow> nat \<Rightarrow> object option" where
  "lookup h x = (if x < length h then Some (h ! x) else None)"

definition readOperation :: "store \<Rightarrow> nat \<Rightarrow> operation option" where
  "readOperation h p = (case lookup h p of Some (OperationObject x) \<Rightarrow> Some x | _ \<Rightarrow> None)"

definition readOperations :: "store \<Rightarrow> nat \<Rightarrow> operation list option" where
  "readOperations h r =
     (case lookup h r of
        Some (ArrayObject refs) \<Rightarrow> those (map (readOperation h) refs)
      | _ \<Rightarrow> None)"

text \<open>\<^verbatim>\<open>transaction.operations\<close>, the reference to the array.\<close>

definition operationsOf :: "store \<Rightarrow> nat \<Rightarrow> nat option" where
  "operationsOf h t = (case lookup h t of Some (TransactionObject r ap) \<Rightarrow> Some r | _ \<Rightarrow> None)"

text \<open>The transaction that a transaction object, its array and its operations hold.\<close>

definition readTransaction :: "store \<Rightarrow> nat \<Rightarrow> transaction option" where
  "readTransaction h t =
     (case lookup h t of
        Some (TransactionObject r ap) \<Rightarrow>
          (case readOperations h r of
             Some ops \<Rightarrow> Some \<lparr>operations = ops, applied = ap\<rparr>
           | None \<Rightarrow> None)
      | _ \<Rightarrow> None)"

text \<open>
  \<^verbatim>\<open>ve.copy( this.operations )\<close>. \<^verbatim>\<open>ve.copy\<close> is the deep copy of the OOjs library
  (\<^verbatim>\<open>OO.copy\<close>): the copy of an array of operations is a new array of new operation
  objects. The result is the reference to the new array.
\<close>

definition copyOperations :: "store \<Rightarrow> nat \<Rightarrow> nat effect" where
  "copyOperations h r =
     (case readOperations h r of
        None \<Rightarrow> (Inl TypeError, h)
      | Some ops \<Rightarrow>
          (let base = length h;
               h1 = h @ map OperationObject ops
           in (Inr (length h1), h1 @ [ArrayObject [base ..< base + length ops]])))"

text \<open>
  \<^verbatim>\<open>clone\<close> on objects: \<^verbatim>\<open>new this.constructor()\<close> makes a transaction object with an
  empty operations array and \<^verbatim>\<open>applied = false\<close>; then its \<^verbatim>\<open>operations\<close> property is
  set to the copy.
\<close>

definition cloneObject :: "store \<Rightarrow> nat \<Rightarrow> nat effect" where
  "cloneObject h this =
     (case lookup h this of
        Some (TransactionObject r ap) \<Rightarrow>
          (let h1 = h @ [ArrayObject []];
               tx = length h1;
               h2 = h1 @ [TransactionObject (length h) False]
           in case copyOperations h2 r of
                (Inl e, h3) \<Rightarrow> (Inl e, h3)
              | (Inr c, h3) \<Rightarrow> (Inr tx, h3[tx := TransactionObject c False]))
      | _ \<Rightarrow> (Inl TypeError, h))"

text \<open>
  \<^verbatim>\<open>adjustRetain\<close> on objects; \<open>r\<close> is the reference to the operations array.
  \<^verbatim>\<open>ops[ i ].length += diff\<close> writes to the operation object, \<^verbatim>\<open>ops.splice\<close> writes to
  the array, and the new retain is a new object. When the new length is negative, the
  source writes it to the operation object and throws; a length is a natural number
  here, so that write (to the object that the other branches write to) is left out.
\<close>

definition adjustRetainObject :: "store \<Rightarrow> nat \<Rightarrow> place \<Rightarrow> int \<Rightarrow> unit effect" where
  "adjustRetainObject h r pl d =
     (case lookup h r of
        Some (ArrayObject refs) \<Rightarrow>
          (let atStart = (pl = AtStart);
               i0 = (if atStart then 0 else int (length refs) - 1);
               opAt = (\<lambda>i. case arrayGet refs i of Some p \<Rightarrow> readOperation h p | None \<Rightarrow> None)
           in if d = 0 then (Inr (), h)
              else
                let i = (if \<not> atStart \<and>
                            (case opAt i0 of Some (RetainMetadata n) \<Rightarrow> True | _ \<Rightarrow> False)
                         then int (length refs) - 2 else i0)
                in case opAt i of
                     Some (Retain n) \<Rightarrow>
                       (if int n + d < 0 then (Inl NegativeRetainLength, h)
                        else
                          let h1 = h[refs ! nat i := OperationObject (Retain (nat (int n + d)))]
                          in if int n + d = 0
                             then (Inr (),
                                   h1[r := ArrayObject (take (nat i) refs @ drop (nat i + 1) refs)])
                             else (Inr (), h1))
                   | _ \<Rightarrow>
                       (if d < 0 then (Inl NegativeRetainLength, h)
                        else
                          let p = length h;
                              h1 = h @ [OperationObject (Retain (nat d))]
                          in (Inr (),
                              h1[r := ArrayObject (if atStart then p # refs else refs @ [p])])))
      | _ \<Rightarrow> (Inl TypeError, h))"

text \<open>The two \<^verbatim>\<open>adjustRetain\<close> calls of one branch, on the arrays \<open>r1\<close> and \<open>r2\<close>.\<close>

definition adjustBothObjects ::
  "store \<Rightarrow> nat \<Rightarrow> place \<Rightarrow> int \<Rightarrow> nat \<Rightarrow> place \<Rightarrow> int \<Rightarrow> unit effect" where
  "adjustBothObjects h r1 pl1 d1 r2 pl2 d2 =
     (case adjustRetainObject h r1 pl1 d1 of
        (Inl e, h1) \<Rightarrow> (Inl e, h1)
      | (Inr u, h1) \<Rightarrow> adjustRetainObject h1 r2 pl2 d2)"

text \<open>
  \<^verbatim>\<open>rebaseTransactions\<close> on objects: \<open>transactionA\<close> and \<open>transactionB\<close> are references,
  and so are the two results.
\<close>

definition rebaseTransactionsObjects ::
  "store \<Rightarrow> nat \<Rightarrow> nat \<Rightarrow> (nat option \<times> nat option) effect" where
  "rebaseTransactionsObjects h transactionA transactionB =
     (case cloneObject h transactionA of
        (Inl e, h1) \<Rightarrow> (Inl e, h1)
      | (Inr a, h1) \<Rightarrow>
          (case cloneObject h1 transactionB of
             (Inl e, h2) \<Rightarrow> (Inl e, h2)
           | (Inr b, h2) \<Rightarrow>
               (case (readTransaction h2 a, readTransaction h2 b,
                      operationsOf h2 a, operationsOf h2 b) of
                  (Some ta, Some tb, Some ra, Some rb) \<Rightarrow>
                    (let infoA = getActiveRangeAndLengthDiff ta;
                         infoB = getActiveRangeAndLengthDiff tb;
                         finished = (\<lambda>r. case r of
                                       (Inl e, h3) \<Rightarrow> (Inl e, h3)
                                     | (Inr u, h3) \<Rightarrow> (Inr (Some a, Some b), h3))
                     in if activeStart infoA = None \<or> activeStart infoB = None then
                          finished (adjustBothObjects h2 ra AtStart (diff infoB)
                                      rb AtStart (diff infoA))
                        else if lessEqDefined (activeEnd infoA) (activeStart infoB) then
                          finished (adjustBothObjects h2 rb AtStart (diff infoA)
                                      ra AtEnd (diff infoB))
                        else if lessEqDefined (activeEnd infoB) (activeStart infoA) then
                          finished (adjustBothObjects h2 ra AtStart (diff infoB)
                                      rb AtEnd (diff infoA))
                        else (Inr (None, None), h2))
                | _ \<Rightarrow> (Inl TypeError, h2))))"

text \<open>
  A store with the transactions \<open>removeFirst\<close> (at reference 3) and \<open>removeSecond\<close> (at
  reference 7), the second one already applied.
\<close>

definition twoTransactions :: store where
  "twoTransactions =
     [OperationObject (Replace [Character CHR ''a'' []] [] None None None None),
      OperationObject (Retain 1),
      ArrayObject [0, 1],
      TransactionObject 2 False,
      OperationObject (Retain 1),
      OperationObject (Replace [Character CHR ''b'' []] [] None None None None),
      ArrayObject [4, 5],
      TransactionObject 6 True]"

text \<open>
  A store \<open>h\<close> extends a store \<open>h0\<close> when it holds the objects of \<open>h0\<close>, unchanged and
  at the same references, and its further objects refer to further objects only.
\<close>

definition freshObject :: "nat \<Rightarrow> object \<Rightarrow> bool" where
  "freshObject n x =
     (case x of
        TransactionObject r ap \<Rightarrow> n \<le> r
      | ArrayObject refs \<Rightarrow> list_all (\<lambda>p. n \<le> p) refs
      | OperationObject y \<Rightarrow> True)"

definition extends :: "store \<Rightarrow> store \<Rightarrow> bool" where
  "extends h0 h \<longleftrightarrow>
     length h0 \<le> length h \<and> take (length h0) h = h0 \<and>
     list_all (freshObject (length h0)) (drop (length h0) h)"

text \<open>\<^verbatim>\<open>transaction.applied\<close>, read from the store.\<close>

definition appliedOf :: "store \<Rightarrow> nat \<Rightarrow> bool option" where
  "appliedOf h t = (case lookup h t of Some (TransactionObject r ap) \<Rightarrow> Some ap | _ \<Rightarrow> None)"


text \<open>
  The array at \<open>r\<close> holds the operations \<open>ops\<close>: its elements are the references \<open>refs\<close>,
  no two of them the same object, and the object at the \<open>k\<close>-th reference is the \<open>k\<close>-th
  operation.
\<close>

definition holdsOperations :: "store \<Rightarrow> nat \<Rightarrow> nat list \<Rightarrow> operation list \<Rightarrow> bool" where
  "holdsOperations h r refs ops \<longleftrightarrow>
     lookup h r = Some (ArrayObject refs) \<and> distinct refs \<and>
     map (lookup h) refs = map (\<lambda>x. Some (OperationObject x)) ops"


section \<open>Properties\<close>

subsection \<open>Ranges\<close>

lemma range_ends: "start (Range a b) = min a b" "finish (Range a b) = max a b"
  by (simp_all add: start_def finish_def)


lemma isCollapsed_ends: "isCollapsed r \<longleftrightarrow> start r = finish r"
  by (auto simp: isCollapsed_def start_def finish_def)

subsection \<open>Reversal\<close>

lemma reversedLoop_map: "reversedLoop xs acc = acc @ map reverseOp xs"
  by (induction xs arbitrary: acc) simp_all

lemma operations_reversed: "operations (reversed t) = map reverseOp (operations t)"
  by (simp add: reversed_def Transaction_def reversedLoop_map)

lemma reverseOp_involution: "reverseOp (reverseOp x) = x"
proof (cases x)
  case (Annotate m b i)
  then show ?thesis by (cases m) simp_all
qed simp_all

text \<open>
  C2. Reversing a transaction twice gives back its operations list, operation for
  operation; nothing is said about the \<^verbatim>\<open>applied\<close> flag (which \<^verbatim>\<open>reversed\<close> always
  leaves false).
\<close>

theorem reversed_reversed_operations: "operations (reversed (reversed t)) = operations t"
proof -
  have "map (reverseOp \<circ> reverseOp) (operations t) = map id (operations t)"
    by (rule map_cong) (simp_all add: reverseOp_involution)
  then show ?thesis by (simp add: operations_reversed)
qed

text \<open>
  C3. \<^verbatim>\<open>reversed\<close> yields exactly one operation per original operation, in the same
  order, each transformed by its variant's rule: annotate swaps \<^verbatim>\<open>set\<close> and \<^verbatim>\<open>clear\<close>
  and keeps bias and index; attribute swaps \<^verbatim>\<open>from\<close> and \<^verbatim>\<open>to\<close>; replace swaps
  \<^verbatim>\<open>insert\<close> with \<^verbatim>\<open>remove\<close> and \<^verbatim>\<open>insertMetadata\<close> with \<^verbatim>\<open>removeMetadata\<close>;
  replaceMetadata swaps \<^verbatim>\<open>insert\<close> with \<^verbatim>\<open>remove\<close>; retain and retainMetadata are
  copied.
\<close>

theorem reversed_per_variant:
  "operations (reversed t) = map reverseOp (operations t) \<and>
   length (operations (reversed t)) = length (operations t) \<and>
   reverseOp (Annotate SetMethod b i) = Annotate ClearMethod b i \<and>
   reverseOp (Annotate ClearMethod b i) = Annotate SetMethod b i \<and>
   reverseOp (Attribute k f t') = Attribute k t' f \<and>
   reverseOp (Replace rem ins remMeta insMeta ido idl) = Replace ins rem insMeta remMeta ido idl \<and>
   reverseOp (ReplaceMetadata mrem mins) = ReplaceMetadata mins mrem \<and>
   reverseOp (Retain n) = Retain n \<and>
   reverseOp (RetainMetadata n) = RetainMetadata n"
  by (simp add: operations_reversed)

subsection \<open>Offset translation\<close>













subsection \<open>Rebase\<close>

lemma getActiveRangeAndLengthDiff_clone:
  "getActiveRangeAndLengthDiff (clone t) = getActiveRangeAndLengthDiff t"
  by (simp add: getActiveRangeAndLengthDiff_def clone_def)

lemma clone_with_operations: "(clone t)\<lparr>operations := ops\<rparr> = Transaction ops"
  by (simp add: clone_def Transaction_def)

lemma operations_clone: "operations (clone t) = operations t"
  by (simp add: clone_def)

text \<open>
  What \<^verbatim>\<open>adjustRetain\<close> does to a leading retain, to a trailing retain, and to a
  trailing retain that is followed by a \<^verbatim>\<open>retainMetadata\<close>.
\<close>

lemma adjustRetain_zero: "adjustRetain ops pl 0 = Inr ops"
  by (simp add: adjustRetain_def)

lemma adjustRetain_leading:
  "d \<noteq> 0 \<Longrightarrow>
   adjustRetain (Retain n # ops) AtStart d =
     (if int n + d < 0 then Inl NegativeRetainLength
      else if int n + d = 0 then Inr ops
      else Inr (Retain (nat (int n + d)) # ops))"
  by (simp add: adjustRetain_def arrayGet_def)

lemma adjustRetain_trailing:
  "d \<noteq> 0 \<Longrightarrow>
   adjustRetain (ops @ [Retain n]) AtEnd d =
     (if int n + d < 0 then Inl NegativeRetainLength
      else if int n + d = 0 then Inr ops
      else Inr (ops @ [Retain (nat (int n + d))]))"
  by (simp add: adjustRetain_def arrayGet_def nth_append)

lemma adjustRetain_trailing_before_metadata:
  "d \<noteq> 0 \<Longrightarrow>
   adjustRetain (ops @ [Retain n, RetainMetadata m]) AtEnd d =
     (if int n + d < 0 then Inl NegativeRetainLength
      else if int n + d = 0 then Inr (ops @ [RetainMetadata m])
      else Inr (ops @ [Retain (nat (int n + d)), RetainMetadata m]))"
proof -
  let ?xs = "ops @ [Retain n, RetainMetadata m]"
  assume d: "d \<noteq> 0"
  have g1: "arrayGet ?xs (1 + int (length ops)) = Some (RetainMetadata m)"
    by (simp add: arrayGet_def nth_append nat_add_distrib)
  have g2: "arrayGet ?xs (int (length ops)) = Some (Retain n)"
    by (simp add: arrayGet_def nth_append)
  show ?thesis
    using d by (simp add: adjustRetain_def g1 g2 add.commute [of _ 1] list_update_append)
qed

text \<open>
  C1, as stated, fails where both conditions hold. \<open>insertX\<close> and \<open>insertYZ\<close> insert
  at the same offset 1, so both \<open>infoA.end \<le> infoB.start\<close> and
  \<open>infoB.end \<le> infoA.start\<close> hold. The symmetric rule would grow the leading retain of
  \<open>insertX\<close> by 2 and the trailing retain of \<open>insertYZ\<close> by 1; the code applies the
  first rule: it grows the trailing retain of \<open>insertX\<close> and the leading retain of
  \<open>insertYZ\<close>.
\<close>

theorem rebaseTransactions_tie_counterexample:
  "getActiveRangeAndLengthDiff insertX =
     \<lparr>activeStart = Some 1, activeEnd = Some 1, diff = 1\<rparr> \<and>
   getActiveRangeAndLengthDiff insertYZ =
     \<lparr>activeStart = Some 1, activeEnd = Some 1, diff = 2\<rparr> \<and>
   adjustRetain (operations insertX) AtStart 2 =
     Inr [Retain 3, Replace [] [Character CHR ''x'' []] None None None None, Retain 1] \<and>
   adjustRetain (operations insertYZ) AtEnd 1 =
     Inr [Retain 1,
          Replace [] [Character CHR ''y'' [], Character CHR ''z'' []] None None None None,
          Retain 2] \<and>
   rebaseTransactions insertX insertYZ =
     Inr (Some (Transaction
                  [Retain 1, Replace [] [Character CHR ''x'' []] None None None None, Retain 3]),
          Some (Transaction
                  [Retain 2,
                   Replace [] [Character CHR ''y'' [], Character CHR ''z'' []]
                     None None None None,
                   Retain 1]))"
  by (simp add: insertX_def insertYZ_def Transaction_def getActiveRangeAndLengthDiff_def
      rebaseTransactions_def adjustBoth_def adjustRetain_def arrayGet_def clone_def Let_def)

text \<open>
  C1, amended. Let the active ranges of \<open>a\<close> and \<open>b\<close> both be defined. If
  \<open>infoA.end \<le> infoB.start\<close>, \<^verbatim>\<open>rebaseTransactions\<close> adjusts the leading retain of
  \<open>b\<close> by \<open>infoA.diff\<close> and the trailing retain of \<open>a\<close> by \<open>infoB.diff\<close>. If that
  does not hold and \<open>infoB.end \<le> infoA.start\<close>, it adjusts the leading retain of \<open>a\<close> by
  \<open>infoB.diff\<close> and the trailing retain of \<open>b\<close> by \<open>infoA.diff\<close>. In both cases the
  results are fresh unapplied transactions, and an error thrown by \<^verbatim>\<open>adjustRetain\<close>
  ends the call. If neither holds, the result is \<^verbatim>\<open>[ null, null ]\<close>, returned and not
  thrown.
\<close>

theorem rebaseTransactions_ordered:
  assumes "getActiveRangeAndLengthDiff a =
             \<lparr>activeStart = Some sa, activeEnd = Some ea, diff = da\<rparr>"
    and "getActiveRangeAndLengthDiff b =
             \<lparr>activeStart = Some sb, activeEnd = Some eb, diff = db\<rparr>"
  shows "(ea \<le> sb \<longrightarrow>
            rebaseTransactions a b =
              (case adjustRetain (operations b) AtStart da of
                 Inl e \<Rightarrow> Inl e
               | Inr opsB \<Rightarrow>
                   (case adjustRetain (operations a) AtEnd db of
                      Inl e \<Rightarrow> Inl e
                    | Inr opsA \<Rightarrow> Inr (Some (Transaction opsA), Some (Transaction opsB))))) \<and>
         (\<not> ea \<le> sb \<and> eb \<le> sa \<longrightarrow>
            rebaseTransactions a b =
              (case adjustRetain (operations a) AtStart db of
                 Inl e \<Rightarrow> Inl e
               | Inr opsA \<Rightarrow>
                   (case adjustRetain (operations b) AtEnd da of
                      Inl e \<Rightarrow> Inl e
                    | Inr opsB \<Rightarrow> Inr (Some (Transaction opsA), Some (Transaction opsB))))) \<and>
         (\<not> ea \<le> sb \<and> \<not> eb \<le> sa \<longrightarrow> rebaseTransactions a b = Inr (None, None))"
  using assms
  by (simp add: rebaseTransactions_def Let_def getActiveRangeAndLengthDiff_clone
      clone_with_operations operations_clone adjustBoth_def split: sum.splits)

theorem rebaseTransactions_ordered_witness:
  "rebaseTransactions removeFirst removeSecond =
     Inr (Some (Transaction [Replace [Character CHR ''a'' []] [] None None None None]),
          Some (Transaction [Replace [Character CHR ''b'' []] [] None None None None])) \<and>
   rebaseTransactions removeSecond removeFirst =
     Inr (Some (Transaction [Replace [Character CHR ''b'' []] [] None None None None]),
          Some (Transaction [Replace [Character CHR ''a'' []] [] None None None None])) \<and>
   rebaseTransactions removeFirst replaceFirstBy = Inr (None, None)"
proof -
  have first: "getActiveRangeAndLengthDiff removeFirst =
      \<lparr>activeStart = Some 0, activeEnd = Some 1, diff = - 1\<rparr>"
    by (simp add: removeFirst_def Transaction_def getActiveRangeAndLengthDiff_def)
  have second: "getActiveRangeAndLengthDiff removeSecond =
      \<lparr>activeStart = Some 1, activeEnd = Some 2, diff = - 1\<rparr>"
    by (simp add: removeSecond_def Transaction_def getActiveRangeAndLengthDiff_def)
  have third: "getActiveRangeAndLengthDiff replaceFirstBy =
      \<lparr>activeStart = Some 0, activeEnd = Some 1, diff = 0\<rparr>"
    by (simp add: replaceFirstBy_def Transaction_def getActiveRangeAndLengthDiff_def)
  have ops:
    "operations removeFirst =
       [Replace [Character CHR ''a'' []] [] None None None None] @ [Retain 1]"
    "operations removeSecond =
       [Retain 1, Replace [Character CHR ''b'' []] [] None None None None]"
    by (simp_all add: removeFirst_def removeSecond_def Transaction_def)
  from rebaseTransactions_ordered [OF first second]
  have one: "rebaseTransactions removeFirst removeSecond =
     Inr (Some (Transaction [Replace [Character CHR ''a'' []] [] None None None None]),
          Some (Transaction [Replace [Character CHR ''b'' []] [] None None None None]))"
    by (simp add: ops adjustRetain_leading adjustRetain_trailing del: append.simps)
  from rebaseTransactions_ordered [OF second first]
  have two: "rebaseTransactions removeSecond removeFirst =
     Inr (Some (Transaction [Replace [Character CHR ''b'' []] [] None None None None]),
          Some (Transaction [Replace [Character CHR ''a'' []] [] None None None None]))"
    by (simp add: ops adjustRetain_leading adjustRetain_trailing del: append.simps)
  from rebaseTransactions_ordered [OF first third]
  have three: "rebaseTransactions removeFirst replaceFirstBy = Inr (None, None)"
    by simp
  from one two three show ?thesis by simp
qed

subsection \<open>Builder\<close>

lemma arrayGet_last: "arrayGet (xs @ [x]) (int (length (xs @ [x])) - 1) = Some x"
  by (simp add: arrayGet_def)

text \<open>The end of \<^verbatim>\<open>pushReplace\<close> throws nothing.\<close>

lemma finishReplace_returns:
  "finishReplace rem ins removeMetadata insertMetadata extraMetadata ido idl ops \<noteq> (Inl e, ops')"
  by (simp add: finishReplace_def pushReplaceMetadata_def Let_def split: option.splits)

lemma arrayGet_nonempty: "arrayGet xs i = Some x \<Longrightarrow> xs \<noteq> []"
  by (auto simp: arrayGet_def split: if_splits)

text \<open>\<^verbatim>\<open>pushReplace\<close> past its first \<^verbatim>\<open>return\<close>.\<close>

lemma pushReplace_work:
  assumes "\<not> (removeLength = 0 \<and> ins = [])"
  shows "pushReplace env doc offset removeLength ins insertMetadataArg ido idl ops =
       (let rng = Range offset (offset + removeLength);
            rem = getData doc rng;
            removeMetadata = getMetadata doc rng;
            collapsed = collapseMetadata env ins removeMetadata insertMetadataArg;
            insertMetadata = fst collapsed;
            extraMetadata = fst (snd collapsed);
            isInsertEmpty = snd (snd collapsed);
            mergedMetadata =
              (if fallsThrough ops
               then (case last ops of ReplaceMetadata lrem lins \<Rightarrow> [Some lins] | _ \<Rightarrow> [])
               else []);
            ops1 = (if fallsThrough ops then butlast ops else ops)
        in case arrayGet ops1 (int (length ops1) - 1) of
             Some (Replace lrem lins lremMeta linsMeta lido lidl) \<Rightarrow>
               if \<not> (lins \<noteq> [] \<and> insertMetadata \<noteq> None) \<and> lido = None \<and>
                  extraMetadata = None \<and>
                  \<not> (mergedMetadata \<noteq> [] \<and> insertMetadata \<noteq> None \<and> \<not> isInsertEmpty)
               then
                 (if (insertMetadata = None \<or> isInsertEmpty) \<and>
                     length ins < length mergedMetadata
                  then (Inl InvalidArrayLength, butlast ops1)
                  else pushReplace env doc
                         (offset - int (length lrem))
                         (int (length lrem) + removeLength)
                         (lins @ ins)
                         (Some ((case linsMeta of
                                   Some m \<Rightarrow> m
                                 | None \<Rightarrow> replicate (length lins) None)
                                @ mergedMetadata
                                @ (if insertMetadata = None \<or> isInsertEmpty
                                   then replicate (length ins - length mergedMetadata) None
                                   else (case insertMetadata of Some m \<Rightarrow> m | None \<Rightarrow> []))))
                         ido idl (butlast ops1))
               else if lins = [] \<and> ins = [] \<and>
                       (lremMeta = None \<or> mergedMetadata \<noteq> []) \<and>
                       (insertMetadata = None \<or> extraMetadata \<noteq> None)
               then pushReplace env doc
                      (offset - int (length lrem))
                      (int (length lrem) + removeLength)
                      [] None None None (butlast ops1)
               else finishReplace rem ins removeMetadata insertMetadata extraMetadata ido idl ops1
           | Some (ReplaceMetadata lrem lins) \<Rightarrow> (Inl ReplaceAfterReplaceMetadata, ops1)
           | _ \<Rightarrow> finishReplace rem ins removeMetadata insertMetadata extraMetadata ido idl ops1)"
  using assms by (subst pushReplace.simps) (simp only: if_False)

text \<open>
  When \<^verbatim>\<open>pushReplace\<close> throws, the operations list it leaves is no longer than the list
  after the \<^verbatim>\<open>pop\<close> of the first merge \<^verbatim>\<open>if\<close>.
\<close>

lemma pushReplace_error_length:
  "pushReplace env doc offset removeLength ins im ido idl ops = (Inl e, ops') \<Longrightarrow>
   length ops' \<le> length (if fallsThrough ops then butlast ops else ops)"
proof (induction "length ops" arbitrary: ops offset removeLength ins im ido idl rule: less_induct)
  case less
  define ops1 where "ops1 = (if fallsThrough ops then butlast ops else ops)"
  have le: "length ops1 \<le> length ops" by (simp add: ops1_def)
  have work: "\<not> (removeLength = 0 \<and> ins = [])"
    using less.prems by (subst (asm) pushReplace.simps) (auto split: if_splits)
  note unfold = less.prems [unfolded pushReplace_work [OF work, of env doc offset im ido idl ops] Let_def,
      folded ops1_def]
  show ?case
  proof (cases "arrayGet ops1 (int (length ops1) - 1)")
    case None
    with work unfold show ?thesis
      by (simp add: Let_def finishReplace_returns)
  next
    case (Some lastOp)
    then have ne: "ops1 \<noteq> []" by (rule arrayGet_nonempty)
    then have lt: "length (butlast ops1) < length ops"
      using le by (cases ops1 rule: rev_cases) simp_all
    have rec: "length ops' \<le> length ops1"
      if "pushReplace env doc offset' removeLength' ins' im' ido' idl' (butlast ops1) = (Inl e, ops')"
      for offset' removeLength' ins' im' ido' idl'
    proof -
      from less.hyps [OF lt that]
      have "length ops' \<le> length (butlast ops1)" by (auto split: if_splits)
      then show ?thesis by simp
    qed
    show ?thesis
    proof (cases lastOp)
      case (Replace lrem lins lremMeta linsMeta lido lidl)
      from work Some Replace unfold
      have "length ops' \<le> length ops1"
        by (auto simp: Let_def finishReplace_returns split: if_splits dest: rec)
      then show ?thesis by (simp add: ops1_def)
    next
      case (ReplaceMetadata lrem lins)
      with work Some unfold show ?thesis
        by (simp add: Let_def ops1_def)
    next
      case (Retain n)
      with work Some unfold show ?thesis
        by (simp add: Let_def finishReplace_returns)
    next
      case (RetainMetadata n)
      with work Some unfold show ?thesis
        by (simp add: Let_def finishReplace_returns)
    next
      case (Attribute k f t)
      with work Some unfold show ?thesis
        by (simp add: Let_def finishReplace_returns)
    next
      case (Annotate m b i)
      with work Some unfold show ?thesis
        by (simp add: Let_def finishReplace_returns)
    qed
  qed
qed

lemma fallsThrough_nonempty: "fallsThrough ops \<Longrightarrow> ops \<noteq> []"
  by (auto simp: fallsThrough_def arrayGet_def)

text \<open>
  C6, amended. When the last operation is a \<^verbatim>\<open>replaceMetadata\<close>, \<^verbatim>\<open>pushReplace\<close>
  throws 'replace after replaceMetadata not allowed' and leaves the operations list as
  it was exactly when the call is not a no-op (it removes or inserts something) and the
  list is not in the state that the first merge \<^verbatim>\<open>if\<close> tests for: the
  \<^verbatim>\<open>replaceMetadata\<close> only inserts and follows a \<^verbatim>\<open>replace\<close> that inserts nothing. A
  no-op call returns with the list as it was.
\<close>

theorem pushReplace_after_replaceMetadata:
  assumes "ops = before @ [ReplaceMetadata mrem mins]"
  shows "(pushReplace env doc offset removeLength ins insertMetadataArg ido idl ops =
            (Inl ReplaceAfterReplaceMetadata, ops)
          \<longleftrightarrow> \<not> (removeLength = 0 \<and> ins = []) \<and> \<not> fallsThrough ops) \<and>
         (removeLength = 0 \<and> ins = [] \<longrightarrow>
            pushReplace env doc offset removeLength ins insertMetadataArg ido idl ops =
              (Inr (), ops))"
proof (cases "removeLength = 0 \<and> ins = []")
  case True
  then have "pushReplace env doc offset removeLength ins insertMetadataArg ido idl ops = (Inr (), ops)"
    by (subst pushReplace.simps) simp
  with True show ?thesis by simp
next
  case False
  show ?thesis
  proof (cases "fallsThrough ops")
    case True
    have "pushReplace env doc offset removeLength ins insertMetadataArg ido idl ops \<noteq>
            (Inl ReplaceAfterReplaceMetadata, ops)"
    proof
      assume "pushReplace env doc offset removeLength ins insertMetadataArg ido idl ops =
                (Inl ReplaceAfterReplaceMetadata, ops)"
      from pushReplace_error_length [OF this] True fallsThrough_nonempty [OF True]
      show False by (cases ops rule: rev_cases) simp_all
    qed
    with True False show ?thesis by blast
  next
    case nft: False
    have lastOp: "arrayGet ops (int (length ops) - 1) = Some (ReplaceMetadata mrem mins)"
      unfolding assms by (rule arrayGet_last)
    have "pushReplace env doc offset removeLength ins insertMetadataArg ido idl ops =
            (Inl ReplaceAfterReplaceMetadata, ops)"
      using False nft lastOp by (subst pushReplace.simps) (auto simp: Let_def)
    with False nft show ?thesis by blast
  qed
qed

lemma fallsThrough_after_removal:
  "fallsThrough (before @ [Replace rem [] remMeta insMeta ido idl, ReplaceMetadata [] mins])
     \<longleftrightarrow> mins \<noteq> []"
proof -
  let ?xs = "before @ [Replace rem [] remMeta insMeta ido idl, ReplaceMetadata [] mins]"
  have g1: "arrayGet ?xs (int (length ?xs) - 1) = Some (ReplaceMetadata [] mins)"
    by (simp add: arrayGet_def nth_append nat_add_distrib)
  have g2: "arrayGet ?xs (int (length ?xs) - 2) = Some (Replace rem [] remMeta insMeta ido idl)"
    by (simp add: arrayGet_def nth_append)
  show ?thesis unfolding fallsThrough_def g1 g2 by simp
qed

text \<open>
  C6, as stated, fails. After the removal of the paragraph opener of \<open>paragraphDoc\<close>,
  whose metadata is carried by an extra \<^verbatim>\<open>replaceMetadata\<close>, an insertion at offset 1
  is merged with the removal and nothing is thrown. A call that neither removes nor
  inserts returns at once, whatever the last operation is.
\<close>

theorem pushReplace_after_replaceMetadata_counterexample:
  "pushReplace paragraphCollaborators paragraphDoc 1 0 [Character CHR ''x'' []] None None None
     [Replace [OpenElement ''paragraph'' []] [] (Some [Some [alienMeta]]) (Some []) None None,
      ReplaceMetadata [] [alienMeta]] =
     (Inr (), [Replace [OpenElement ''paragraph'' []] [Character CHR ''x'' []]
                 (Some [Some [alienMeta]]) (Some [Some [alienMeta]]) None None]) \<and>
   pushReplace paragraphCollaborators paragraphDoc 1 0 [] None None None
     [ReplaceMetadata [] [alienMeta]] = (Inr (), [ReplaceMetadata [] [alienMeta]])"
proof -
  have two: "pushReplace paragraphCollaborators paragraphDoc 1 0 [] None None None
     [ReplaceMetadata [] [alienMeta]] = (Inr (), [ReplaceMetadata [] [alienMeta]])"
    by (subst pushReplace.simps) simp
  have inner: "pushReplace paragraphCollaborators paragraphDoc 0 1 [Character CHR ''x'' []]
      (Some [Some [alienMeta]]) None None [] =
     (Inr (), [Replace [OpenElement ''paragraph'' []] [Character CHR ''x'' []]
                 (Some [Some [alienMeta]]) (Some [Some [alienMeta]]) None None])"
    by (subst pushReplace.simps)
       (simp add: Let_def getData_def getMetadata_def sliceRange_def range_ends paragraphDoc_def
          collapseMetadata_def isEmptyCells_def fallsThrough_def arrayGet_def finishReplace_def
          pushReplaceInternal_def)
  have one: "pushReplace paragraphCollaborators paragraphDoc 1 0 [Character CHR ''x'' []] None None None
     [Replace [OpenElement ''paragraph'' []] [] (Some [Some [alienMeta]]) (Some []) None None,
      ReplaceMetadata [] [alienMeta]] =
     (Inr (), [Replace [OpenElement ''paragraph'' []] [Character CHR ''x'' []]
                 (Some [Some [alienMeta]]) (Some [Some [alienMeta]]) None None])"
    by (subst pushReplace.simps)
       (simp add: Let_def getData_def getMetadata_def sliceRange_def range_ends paragraphDoc_def
          collapseMetadata_def isEmptyCells_def fallsThrough_def arrayGet_def inner [unfolded paragraphDoc_def])
  from one two show ?thesis by simp
qed

text \<open>
  After a \<^verbatim>\<open>replaceMetadata\<close> that stands alone, the removal of the paragraph's
  character throws and leaves the list as it was, and a call that neither removes nor
  inserts returns. After the removal of the paragraph opener with its extra
  \<^verbatim>\<open>replaceMetadata\<close>, the removal of the character does not throw that error with the
  list as it was.
\<close>

theorem pushReplace_after_replaceMetadata_witness:
  "pushReplace paragraphCollaborators paragraphDoc 1 1 [] None None None
     [ReplaceMetadata [] [alienMeta]] =
     (Inl ReplaceAfterReplaceMetadata, [ReplaceMetadata [] [alienMeta]]) \<and>
   pushReplace paragraphCollaborators paragraphDoc 1 0 [] None None None
     [ReplaceMetadata [] [alienMeta]] = (Inr (), [ReplaceMetadata [] [alienMeta]]) \<and>
   fallsThrough
     [Replace [OpenElement ''paragraph'' []] [] (Some [Some [alienMeta]]) (Some []) None None,
      ReplaceMetadata [] [alienMeta]] \<and>
   pushReplace paragraphCollaborators paragraphDoc 1 1 [] None None None
     [Replace [OpenElement ''paragraph'' []] [] (Some [Some [alienMeta]]) (Some []) None None,
      ReplaceMetadata [] [alienMeta]] \<noteq>
     (Inl ReplaceAfterReplaceMetadata,
      [Replace [OpenElement ''paragraph'' []] [] (Some [Some [alienMeta]]) (Some []) None None,
       ReplaceMetadata [] [alienMeta]])"
proof -
  have h1: "\<not> ((1::int) = 0 \<and> ([]::item list) = [])" by simp
  have h2: "[ReplaceMetadata [] [alienMeta]] = [] @ [ReplaceMetadata [] [alienMeta]]" by simp
  have h3: "\<not> fallsThrough [ReplaceMetadata [] [alienMeta]]"
    by (simp add: fallsThrough_def arrayGet_def)
  have h4: "[Replace [OpenElement ''paragraph'' []] [] (Some [Some [alienMeta]]) (Some []) None None,
             ReplaceMetadata [] [alienMeta]] =
            [Replace [OpenElement ''paragraph'' []] [] (Some [Some [alienMeta]]) (Some []) None None]
              @ [ReplaceMetadata [] [alienMeta]]" by simp
  have h5: "fallsThrough
     [Replace [OpenElement ''paragraph'' []] [] (Some [Some [alienMeta]]) (Some []) None None,
      ReplaceMetadata [] [alienMeta]]"
    by (simp add: fallsThrough_def arrayGet_def alienMeta_def)
  have h6: "(0::int) = 0 \<and> ([]::item list) = []" by simp
  from pushReplace_after_replaceMetadata
         [OF h2, of paragraphCollaborators paragraphDoc 1 1 "[]" None None None]
       pushReplace_after_replaceMetadata
         [OF h2, of paragraphCollaborators paragraphDoc 1 0 "[]" None None None]
       pushReplace_after_replaceMetadata
         [OF h4, of paragraphCollaborators paragraphDoc 1 1 "[]" None None None]
       h1 h3 h5 h6
  show ?thesis by simp
qed

text \<open>
  What \<^verbatim>\<open>pushReplace\<close> does in that state depends on the metadata. An insertion without
  metadata is merged with the removal and its extra metadata, as in the insertion into
  \<open>paragraphDoc\<close> above. The removal of the character of \<open>paragraphDoc\<close> pops both operations and then
  fails on \<^verbatim>\<open>new Array( insert.length - mergedMetadata.length )\<close> with a negative length.
  The replacement of the character of \<open>annotatedDoc\<close>, which has metadata of its own,
  is pushed as a second \<^verbatim>\<open>replace\<close>, and the popped \<^verbatim>\<open>replaceMetadata\<close> is not put back.
\<close>

lemma pushReplace_after_removal_examples:
  "pushReplace paragraphCollaborators paragraphDoc 1 1 [] None None None
     [Replace [OpenElement ''paragraph'' []] [] (Some [Some [alienMeta]]) (Some []) None None,
      ReplaceMetadata [] [alienMeta]] = (Inl InvalidArrayLength, [])"
  "pushReplace paragraphCollaborators annotatedDoc 1 1 [Character CHR ''x'' []] None None None
     [Replace [OpenElement ''paragraph'' []] [] (Some [Some [alienMeta]]) (Some []) None None,
      ReplaceMetadata [] [alienMeta]] =
     (Inr (),
      [Replace [OpenElement ''paragraph'' []] [] (Some [Some [alienMeta]]) (Some []) None None,
       Replace [Character CHR ''a'' []] [Character CHR ''x'' []]
         (Some [Some [alienMeta]]) (Some [Some [alienMeta]]) None None])"
  by code_simp+

lemma pushRetain_empty:
  "0 \<le> n \<Longrightarrow> pushRetain n [] = (Inr (), if n = 0 then [] else [Retain (nat n)])"
  by (simp add: pushRetain_def arrayGet_def)

lemma pushRetain_negative: "n < 0 \<Longrightarrow> pushRetain n ops = (Inl (InvalidRetainLength n), ops)"
  by (simp add: pushRetain_def)

lemma pushRetain_after_retain:
  "0 < n \<Longrightarrow> pushRetain n [Retain m] = (Inr (), [Retain (m + nat n)])"
  by (simp add: pushRetain_def arrayGet_def)

lemma pushRetainMetadata_negative:
  "n < 0 \<Longrightarrow> pushRetainMetadata n ops = (Inl (InvalidRetainLength n), ops)"
  by (simp add: pushRetainMetadata_def)

lemma pushRetainMetadata_after_retain:
  "0 < n \<Longrightarrow> pushRetainMetadata n [Retain m] = (Inr (), [Retain m, RetainMetadata (nat n)])"
  by (simp add: pushRetainMetadata_def arrayGet_def)

lemma pushRetainMetadata_empty:
  "0 < n \<Longrightarrow> pushRetainMetadata n [] = (Inr (), [RetainMetadata (nat n)])"
  by (simp add: pushRetainMetadata_def arrayGet_def)

text \<open>
  C5. \<^verbatim>\<open>newFromRemoval\<close> pushes, after the removal and at the offset the removal ended
  at, the insertion of \<^verbatim>\<open>{ type: 'paragraph' }, { type: '/paragraph' }\<close> when
  \<open>range.start = 0\<close> and \<open>range.end\<close> is at least the start of the internal list; for
  any other range it pushes the removal and the final retain only.
\<close>

theorem newFromRemoval_empty_paragraph_rule:
  "(start r = 0 \<and> internalListStart doc \<le> finish r \<longrightarrow>
      newFromRemoval env doc r removeMetadata =
        built
          (andThen (pushRemoval env doc 0 r removeMetadata []) (\<lambda>endOffset ops1.
           andThen (pushInsertion env doc endOffset endOffset
                      [OpenElement ''paragraph'' [], CloseElement ''paragraph''] ops1)
             (\<lambda>endOffset' ops2.
           pushFinalRetain doc endOffset' None ops2)))) \<and>
   (\<not> (start r = 0 \<and> internalListStart doc \<le> finish r) \<longrightarrow>
      newFromRemoval env doc r removeMetadata =
        built
          (andThen (pushRemoval env doc 0 r removeMetadata []) (\<lambda>endOffset ops1.
           pushFinalRetain doc endOffset None ops1)))"
  by (auto simp: newFromRemoval_def emptyParagraph_def andThen_def split: prod.splits sum.splits)

lemma newFromRemoval_as_replacement:
  "start r = 0 \<Longrightarrow> internalListStart doc \<le> finish r \<Longrightarrow>
   newFromRemoval env doc r removeMetadata =
     newFromReplacement env doc r emptyParagraph removeMetadata"
  by (simp add: newFromRemoval_def newFromReplacement_def)

lemma newFromRemoval_whole_paragraph: "newFromRemoval paragraphCollaborators paragraphDoc (Range 0 3) False =
   Inr (Transaction
          [Replace [OpenElement ''paragraph'' [], Character CHR ''a'' [], CloseElement ''paragraph'']
             [OpenElement ''paragraph'' [], CloseElement ''paragraph'']
             (Some [Some [alienMeta], None, None]) (Some [Some [alienMeta], None])
             (Some 0) (Some 2),
           Retain 2])"
  by code_simp

text \<open>
  C9, amended. For a collapsed range whose start is not negative and that does not
  trigger the empty-paragraph rule, in a document whose internal list starts within its
  data, \<^verbatim>\<open>newFromRemoval\<close> returns without an error, whatever the collaborators are
  (so \<^verbatim>\<open>selectNodes\<close> is not consulted): the transaction is one retain, over the data
  or up to the start of the range if that is further, followed by a \<^verbatim>\<open>retainMetadata\<close>
  if the document has trailing metadata, and \<^verbatim>\<open>isNoOp\<close> holds of it.
\<close>

theorem newFromRemoval_collapsed:
  assumes "isCollapsed r"
    and "0 \<le> start r"
    and "start r > 0 \<or> finish r < internalListStart doc"
    and "internalListStart doc \<le> int (length (data doc))"
  shows "\<exists>ops. newFromRemoval env doc r removeMetadata = Inr (Transaction ops) \<and>
           ops = Retain (nat (max (start r) (int (length (data doc))))) #
                   (case metadataAt doc (int (length (data doc))) of
                      Some fm \<Rightarrow> if fm = [] then [] else [RetainMetadata (length fm)]
                    | None \<Rightarrow> []) \<and>
           list_all (\<lambda>x. isRetainOp x \<or> isRetainMetadataOp x) ops \<and>
           isNoOp (Transaction ops) \<and>
           (\<forall>env'. newFromRemoval env' doc r removeMetadata = Inr (Transaction ops))"
proof -
  let ?len = "int (length (data doc))"
  let ?meta = "case metadataAt doc ?len of
                 Some fm \<Rightarrow> if fm = [] then [] else [RetainMetadata (length fm)]
               | None \<Rightarrow> []"
  let ?ops = "Retain (nat (max (start r) ?len)) # ?meta"
  have fin: "finish r = start r" using assms(1) by (simp add: isCollapsed_ends)
  have norule: "\<not> (start r = 0 \<and> internalListStart doc \<le> finish r)"
    using assms(3) by auto
  have pos: "0 < max (start r) ?len" using assms(2,3,4) fin by auto
  have removal: "pushRemoval e doc 0 r removeMetadata [] =
      (Inr (start r), if start r = 0 then [] else [Retain (nat (start r))])" for e
    using assms(1,2) by (simp add: pushRemoval_def andThen_def pushRetain_empty)
  have final: "pushFinalRetain doc (start r) None
      (if start r = 0 then [] else [Retain (nat (start r))]) = (Inr (), ?ops)"
  proof (cases "start r < ?len")
    case True
    then have m: "max (start r) ?len = ?len" by simp
    have "pushRetain (?len - start r) (if start r = 0 then [] else [Retain (nat (start r))]) =
        (Inr (), [Retain (nat ?len)])"
      using True assms(2)
      by (auto simp: pushRetain_empty pushRetain_after_retain nat_diff_distrib)
    with True show ?thesis
      unfolding m
      by (auto simp: pushFinalRetain_def andThen_def Let_def
          pushRetainMetadata_after_retain
          split: option.splits)
  next
    case False
    then have m: "max (start r) ?len = start r" by simp
    from False pos have "start r \<noteq> 0" by auto
    with False show ?thesis
      unfolding m
      by (auto simp: pushFinalRetain_def andThen_def Let_def
          pushRetainMetadata_after_retain
          split: option.splits)
  qed
  have result: "newFromRemoval e doc r removeMetadata = Inr (Transaction ?ops)" for e
    using norule by (auto simp: newFromRemoval_def removal final andThen_def built_def)
  have retains: "list_all (\<lambda>x. isRetainOp x \<or> isRetainMetadataOp x) ?ops"
    by (simp split: option.splits)
  have noop: "isNoOp (Transaction ?ops)"
    by (simp add: isNoOp_def Transaction_def split: option.splits)
  from result retains noop show ?thesis by blast
qed

text \<open>
  C9, as stated, fails for a collapsed range at a negative offset: it does not trigger
  the empty-paragraph rule, and \<^verbatim>\<open>pushRetain\<close> refuses the negative length.
\<close>

theorem newFromRemoval_collapsed_counterexample:
  "isCollapsed (Range (- 1) (- 1)) \<and>
   finish (Range (- 1) (- 1)) < internalListStart paragraphDoc \<and>
   newFromRemoval paragraphCollaborators paragraphDoc (Range (- 1) (- 1)) False =
     Inl (InvalidRetainLength (- 1))"
  by (simp add: isCollapsed_def range_ends paragraphDoc_def newFromRemoval_def pushRemoval_def
      andThen_def pushRetain_def built_def)

theorem newFromRemoval_empty_paragraph_rule_witness:
  "newFromRemoval paragraphCollaborators paragraphDoc (Range 0 3) False =
     Inr (Transaction
            [Replace [OpenElement ''paragraph'' [], Character CHR ''a'' [], CloseElement ''paragraph'']
               [OpenElement ''paragraph'' [], CloseElement ''paragraph'']
               (Some [Some [alienMeta], None, None]) (Some [Some [alienMeta], None])
               (Some 0) (Some 2),
             Retain 2]) \<and>
   newFromRemoval paragraphCollaborators paragraphDoc (Range 1 2) False =
     Inr (Transaction [Retain 1, Replace [Character CHR ''a'' []] [] None None None None, Retain 3])"
proof -
  have h1: "start (Range 0 3) = 0 \<and> internalListStart paragraphDoc \<le> finish (Range 0 3)"
    by (simp add: range_ends paragraphDoc_def)
  have h2: "\<not> (start (Range 1 2) = 0 \<and> internalListStart paragraphDoc \<le> finish (Range 1 2))"
    by (simp add: range_ends)
  have ev1: "built
          (andThen (pushRemoval paragraphCollaborators paragraphDoc 0 (Range 0 3) False [])
             (\<lambda>endOffset ops1.
           andThen (pushInsertion paragraphCollaborators paragraphDoc endOffset endOffset
                      [OpenElement ''paragraph'' [], CloseElement ''paragraph''] ops1)
             (\<lambda>endOffset' ops2.
           pushFinalRetain paragraphDoc endOffset' None ops2))) =
     Inr (Transaction
            [Replace [OpenElement ''paragraph'' [], Character CHR ''a'' [], CloseElement ''paragraph'']
               [OpenElement ''paragraph'' [], CloseElement ''paragraph'']
               (Some [Some [alienMeta], None, None]) (Some [Some [alienMeta], None])
               (Some 0) (Some 2),
             Retain 2])"
    by code_simp
  have ev2: "built
          (andThen (pushRemoval paragraphCollaborators paragraphDoc 0 (Range 1 2) False [])
             (\<lambda>endOffset ops1. pushFinalRetain paragraphDoc endOffset None ops1)) =
     Inr (Transaction [Retain 1, Replace [Character CHR ''a'' []] [] None None None None, Retain 3])"
    by code_simp
  from newFromRemoval_empty_paragraph_rule
         [of "Range 0 3" paragraphDoc paragraphCollaborators False] h1 ev1
  have one: "newFromRemoval paragraphCollaborators paragraphDoc (Range 0 3) False =
     Inr (Transaction
            [Replace [OpenElement ''paragraph'' [], Character CHR ''a'' [], CloseElement ''paragraph'']
               [OpenElement ''paragraph'' [], CloseElement ''paragraph'']
               (Some [Some [alienMeta], None, None]) (Some [Some [alienMeta], None])
               (Some 0) (Some 2),
             Retain 2])"
    by simp
  from newFromRemoval_empty_paragraph_rule
         [of "Range 1 2" paragraphDoc paragraphCollaborators False] h2 ev2
  have two: "newFromRemoval paragraphCollaborators paragraphDoc (Range 1 2) False =
     Inr (Transaction [Retain 1, Replace [Character CHR ''a'' []] [] None None None None, Retain 3])"
    by simp
  from one two show ?thesis by simp
qed

theorem newFromRemoval_collapsed_witness:
  "newFromRemoval paragraphCollaborators paragraphDoc (Range 2 2) False =
     Inr (Transaction [Retain 5]) \<and>
   isNoOp (Transaction [Retain 5])"
proof -
  have h1: "isCollapsed (Range 2 2)" by (simp add: isCollapsed_def range_ends)
  have h2: "0 \<le> start (Range 2 2)" by (simp add: range_ends)
  have h3: "start (Range 2 2) > 0 \<or> finish (Range 2 2) < internalListStart paragraphDoc"
    by (simp add: range_ends)
  have h4: "internalListStart paragraphDoc \<le> int (length (data paragraphDoc))"
    by (simp add: paragraphDoc_def)
  have m: "metadataAt paragraphDoc (int (length (data paragraphDoc))) = None"
    by (simp add: metadataAt_def arrayGet_def paragraphDoc_def)
  have n: "nat (max (start (Range 2 2)) (int (length (data paragraphDoc)))) = 5"
    by (simp add: range_ends paragraphDoc_def)
  from newFromRemoval_collapsed [OF h1 h2 h3 h4, of paragraphCollaborators False]
  show ?thesis unfolding m n by auto
qed

subsection \<open>Metadata constructors\<close>

text \<open>
  The bounds the metadata constructors check: an empty cell and a range that starts
  below 0 or ends beyond the cell, for a removal; an index at or beyond the end of the
  cell, for the replacement of an element.
\<close>

lemma newFromMetadataRemoval_empty_list:
  "elementsAt doc offset = [] \<Longrightarrow>
   newFromMetadataRemoval doc offset r = Inl CannotRemoveMetadataFromEmptyList"
  by (simp add: newFromMetadataRemoval_def)

lemma newFromMetadataRemoval_out_of_bounds:
  "elementsAt doc offset \<noteq> [] \<Longrightarrow>
   start r < 0 \<or> finish r > int (length (elementsAt doc offset)) \<Longrightarrow>
   newFromMetadataRemoval doc offset r = Inl RangeOutOfBounds"
  by (auto simp: newFromMetadataRemoval_def Let_def)

lemma newFromMetadataElementReplacement_index_too_large:
  "index \<ge> int (length (elementsAt doc offset)) \<Longrightarrow>
   newFromMetadataElementReplacement doc offset index newElement = Inl MetadataIndexOutOfBounds"
  by (simp add: newFromMetadataElementReplacement_def)

text \<open>
  A negative index passes the bounds check of \<^verbatim>\<open>newFromMetadataElementReplacement\<close>.
  The error comes from \<^verbatim>\<open>pushRetain\<close> if the offset is negative too, and otherwise from
  \<^verbatim>\<open>pushRetainMetadata( index )\<close>; it is not 'Metadata index out of bounds'.
\<close>

lemma newFromMetadataElementReplacement_negative_index:
  "index < 0 \<Longrightarrow>
   newFromMetadataElementReplacement doc offset index newElement =
     Inl (InvalidRetainLength (if offset < 0 then offset else index))"
  by (auto simp: newFromMetadataElementReplacement_def Let_def andThen_def built_def
      pushRetain_def pushRetainMetadata_def arrayGet_def split: option.splits operation.splits)

text \<open>
  C8 at the index \<open>-1\<close>, for the cell in front of the paragraph of \<open>paragraphDoc\<close>,
  which holds one element: the index is outside the cell, and the error thrown is
  'Invalid retain length, cannot retain backwards:-1'.
\<close>

theorem newFromMetadataElementReplacement_negative_index_example:
  "elementsAt paragraphDoc 0 = [alienMeta] \<and>
   newFromMetadataElementReplacement paragraphDoc 0 (- 1) (OpenElement ''comment'' []) =
     Inl (InvalidRetainLength (- 1))"
  by (simp add: elementsAt_def metadataAt_def arrayGet_def paragraphDoc_def
      newFromMetadataElementReplacement_def Let_def andThen_def built_def
      pushRetain_def pushRetainMetadata_def)

subsection \<open>Rebase on objects\<close>

lemma extends_refl: "extends h h"
  by (simp add: extends_def)

lemma extends_append:
  "extends h0 h \<Longrightarrow> list_all (freshObject (length h0)) xs \<Longrightarrow> extends h0 (h @ xs)"
  by (simp add: extends_def)

lemma list_all_update:
  "list_all P xs \<Longrightarrow> P x \<Longrightarrow> list_all P (xs[i := x])"
  by (induction xs arbitrary: i) (auto split: nat.splits)

lemma extends_update:
  "extends h0 h \<Longrightarrow> length h0 \<le> k \<Longrightarrow> freshObject (length h0) x \<Longrightarrow>
   extends h0 (h[k := x])"
  by (simp add: extends_def drop_update_swap list_all_update)

lemma extends_nth:
  "extends h0 h \<Longrightarrow> length h0 \<le> k \<Longrightarrow> k < length h \<Longrightarrow> freshObject (length h0) (h ! k)"
proof -
  assume e: "extends h0 h" and k: "length h0 \<le> k" "k < length h"
  then have "drop (length h0) h ! (k - length h0) = h ! k" by simp
  moreover have "k - length h0 < length (drop (length h0) h)" using k by simp
  ultimately show ?thesis
    using e by (metis extends_def list_all_length)
qed

lemma extends_old:
  "extends h0 h \<Longrightarrow> x < length h0 \<Longrightarrow> h ! x = h0 ! x"
  by (metis extends_def nth_take)

lemma extends_length: "extends h0 h \<Longrightarrow> length h0 \<le> length h"
  by (simp add: extends_def)

lemma extends_take: "extends h0 h \<Longrightarrow> take (length h0) h = h0"
  by (simp add: extends_def)

lemma copyOperations_extends:
  assumes "copyOperations h r = (res, h')" and "extends h0 h"
  shows "extends h0 h' \<and> length h \<le> length h' \<and> (\<forall>c. res = Inr c \<longrightarrow> length h0 \<le> c)"
proof (cases "readOperations h r")
  case None
  with assms show ?thesis by (auto simp: copyOperations_def)
next
  case (Some ops)
  have len: "length h0 \<le> length h" using assms(2) by (rule extends_length)
  have ops: "list_all (freshObject (length h0)) (map OperationObject ops)"
    by (simp add: list_all_iff freshObject_def)
  have arr: "freshObject (length h0) (ArrayObject [length h ..< length h + length ops])"
    using len by (simp add: freshObject_def list_all_iff)
  have "extends h0 ((h @ map OperationObject ops) @ [ArrayObject [length h ..< length h + length ops]])"
    using assms(2) ops arr by (intro extends_append) simp_all
  with Some assms(1) len show ?thesis
    by (auto simp: copyOperations_def Let_def)
qed

lemma cloneObject_extends:
  assumes "cloneObject h this = (res, h')" and "extends h0 h"
  shows "extends h0 h' \<and> length h \<le> length h' \<and>
         (\<forall>t. res = Inr t \<longrightarrow>
            length h \<le> t \<and> t < length h' \<and> this < length h \<and>
            (\<exists>c. lookup h' t = Some (TransactionObject c False)))"
proof (cases "lookup h this")
  case None
  with assms show ?thesis by (auto simp: cloneObject_def)
next
  case (Some obj)
  show ?thesis
  proof (cases obj)
    case (TransactionObject r ap)
    let ?h2 = "(h @ [ArrayObject []]) @ [TransactionObject (length h) False]"
    have len: "length h0 \<le> length h" using assms(2) by (rule extends_length)
    have inb: "this < length h"
      using Some by (simp add: lookup_def split: if_splits)
    have e2: "extends h0 ?h2"
      using assms(2) len by (intro extends_append) (simp_all add: freshObject_def)
    obtain cres h3 where copy: "copyOperations ?h2 r = (cres, h3)" by (cases "copyOperations ?h2 r")
    from copyOperations_extends [OF copy e2]
    have e3: "extends h0 h3" and l3: "length ?h2 \<le> length h3"
      and c: "\<And>c. cres = Inr c \<Longrightarrow> length h0 \<le> c" by auto
    show ?thesis
    proof (cases cres)
      case (Inl e)
      with assms(1) Some TransactionObject copy e3 l3 show ?thesis
        by (auto simp: cloneObject_def Let_def)
    next
      case (Inr c')
      have e4: "extends h0 (h3[Suc (length h) := TransactionObject c' False])"
        using e3 len c [OF Inr] by (intro extends_update) (simp_all add: freshObject_def)
      from assms(1) Some TransactionObject copy Inr
      have res: "res = Inr (Suc (length h))"
        and h': "h' = h3[Suc (length h) := TransactionObject c' False]"
        by (simp_all add: cloneObject_def Let_def)
      from l3 have "Suc (length h) < length h3" by simp
      with res h' e4 inb l3 show ?thesis by (auto simp: lookup_def)
    qed
  next
    case (ArrayObject refs)
    with assms Some show ?thesis by (auto simp: cloneObject_def)
  next
    case (OperationObject x)
    with assms Some show ?thesis by (auto simp: cloneObject_def)
  qed
qed

lemma adjustRetainObject_extends:
  assumes "adjustRetainObject h r pl d = (res, h')" and "extends h0 h" and "length h0 \<le> r"
  shows "extends h0 h' \<and> length h \<le> length h' \<and>
         (\<forall>x c ap. lookup h x = Some (TransactionObject c ap) \<longrightarrow>
                   lookup h' x = Some (TransactionObject c ap))"
proof (cases "lookup h r")
  case None
  with assms show ?thesis by (auto simp: adjustRetainObject_def)
next
  case (Some obj)
  show ?thesis
  proof (cases obj)
    case (TransactionObject c ap)
    with assms Some show ?thesis by (auto simp: adjustRetainObject_def)
  next
    case (OperationObject y)
    with assms Some show ?thesis by (auto simp: adjustRetainObject_def)
  next
    case (ArrayObject refs)
    have len: "length h0 \<le> length h" using assms(2) by (rule extends_length)
    have r: "r < length h" "h ! r = ArrayObject refs"
      using Some ArrayObject by (simp_all add: lookup_def split: if_splits)
    have refs: "list_all (\<lambda>p. length h0 \<le> p) refs"
      using extends_nth [OF assms(2,3) r(1)] r(2) by (simp add: freshObject_def)
    have sub: "list_all (\<lambda>p. length h0 \<le> p) (take m refs @ drop n refs)" for m n
      using refs by (auto simp: list_all_iff dest: in_set_takeD in_set_dropD)
    define opAt where
      "opAt = (\<lambda>i. case arrayGet refs i of Some p \<Rightarrow> readOperation h p | None \<Rightarrow> None)"
    have opAt: "length h0 \<le> refs ! nat i \<and> refs ! nat i < length h \<and>
                h ! (refs ! nat i) = OperationObject y"
      if "opAt i = Some y" for i y
    proof -
      from that obtain p where p: "arrayGet refs i = Some p" "readOperation h p = Some y"
        by (auto simp: opAt_def split: option.splits)
      from p(1) have "p = refs ! nat i" "nat i < length refs"
        by (auto simp: arrayGet_def split: if_splits)
      moreover from p(2) have "p < length h" "h ! p = OperationObject y"
        by (auto simp: readOperation_def lookup_def split: if_splits option.splits object.splits)
      ultimately show ?thesis using refs by (auto simp: list_all_length)
    qed
    define i0 where "i0 = (if pl = AtStart then 0 else int (length refs) - 1)"
    define i where
      "i = (if pl \<noteq> AtStart \<and> (case opAt i0 of Some (RetainMetadata n) \<Rightarrow> True | _ \<Rightarrow> False)
            then int (length refs) - 2 else i0)"
    have unfolded: "adjustRetainObject h r pl d =
      (if d = 0 then (Inr (), h)
       else case opAt i of
              Some (Retain n) \<Rightarrow>
                (if int n + d < 0 then (Inl NegativeRetainLength, h)
                 else
                   let h1 = h[refs ! nat i := OperationObject (Retain (nat (int n + d)))]
                   in if int n + d = 0
                      then (Inr (), h1[r := ArrayObject (take (nat i) refs @ drop (nat i + 1) refs)])
                      else (Inr (), h1))
            | _ \<Rightarrow>
                (if d < 0 then (Inl NegativeRetainLength, h)
                 else
                   let p = length h;
                       h1 = h @ [OperationObject (Retain (nat d))]
                   in (Inr (), h1[r := ArrayObject (if pl = AtStart then p # refs else refs @ [p])])))"
      unfolding adjustRetainObject_def Let_def opAt_def i_def i0_def Some ArrayObject
      by simp
    have keep: "extends h0 h \<and> length h \<le> length h \<and>
         (\<forall>x c ap. lookup h x = Some (TransactionObject c ap) \<longrightarrow>
                   lookup h x = Some (TransactionObject c ap))"
      using assms(2) by simp
    have grow: "extends h0 ((h @ [OperationObject (Retain (nat d))])
                  [r := ArrayObject (if pl = AtStart then length h # refs else refs @ [length h])]) \<and>
         length h \<le> length ((h @ [OperationObject (Retain (nat d))])
                  [r := ArrayObject (if pl = AtStart then length h # refs else refs @ [length h])]) \<and>
         (\<forall>x c ap. lookup h x = Some (TransactionObject c ap) \<longrightarrow>
                   lookup ((h @ [OperationObject (Retain (nat d))])
                  [r := ArrayObject (if pl = AtStart then length h # refs else refs @ [length h])]) x
                     = Some (TransactionObject c ap))"
    proof -
      have ea: "extends h0 (h @ [OperationObject (Retain (nat d))])"
        using assms(2) by (intro extends_append) (simp_all add: freshObject_def)
      have "extends h0 ((h @ [OperationObject (Retain (nat d))])
                  [r := ArrayObject (if pl = AtStart then length h # refs else refs @ [length h])])"
        using assms(3) refs len by (intro extends_update [OF ea]) (simp_all add: freshObject_def)
      moreover have "lookup ((h @ [OperationObject (Retain (nat d))])
                  [r := ArrayObject (if pl = AtStart then length h # refs else refs @ [length h])]) x
                     = Some (TransactionObject c ap)"
        if "lookup h x = Some (TransactionObject c ap)" for x c ap
        using that r by (auto simp: lookup_def nth_append nth_list_update split: if_splits)
      ultimately show ?thesis by simp
    qed
    show ?thesis
    proof (cases "d = 0")
      case True
      with assms(1) unfolded keep show ?thesis by auto
    next
      case False
      show ?thesis
      proof (cases "opAt i")
        case None
        with assms(1) unfolded False keep grow show ?thesis
          by (cases "d < 0") (auto simp: Let_def)
      next
        case (Some y)
        note opi = opAt [OF Some]
        show ?thesis
        proof (cases y)
          case (Retain n)
          let ?h1 = "h[refs ! nat i := OperationObject (Retain (nat (int n + d)))]"
          let ?h2 = "?h1[r := ArrayObject (take (nat i) refs @ drop (nat i + 1) refs)]"
          have e1: "extends h0 ?h1"
            using assms(2) opi by (intro extends_update) (simp_all add: freshObject_def)
          have e2: "extends h0 ?h2"
            using assms(3) sub by (intro extends_update [OF e1]) (simp_all add: freshObject_def)
          have t1: "lookup ?h1 x = Some (TransactionObject c ap)"
            if "lookup h x = Some (TransactionObject c ap)" for x c ap
            using that opi Retain by (auto simp: lookup_def nth_list_update split: if_splits)
          have t2: "lookup ?h2 x = Some (TransactionObject c ap)"
            if "lookup h x = Some (TransactionObject c ap)" for x c ap
            using t1 [OF that] that r by (auto simp: lookup_def nth_list_update split: if_splits)
          from assms(1) unfolded False Some Retain keep e1 e2 t1 t2 show ?thesis
            by (auto simp: Let_def split: if_splits)
        next
          case (RetainMetadata n)
          with assms(1) unfolded False Some keep grow show ?thesis
            by (cases "d < 0") (auto simp: Let_def)
        next
          case (Replace x31 x32 x33 x34 x35 x36)
          with assms(1) unfolded False Some keep grow show ?thesis
            by (cases "d < 0") (auto simp: Let_def)
        next
          case (ReplaceMetadata x41 x42)
          with assms(1) unfolded False Some keep grow show ?thesis
            by (cases "d < 0") (auto simp: Let_def)
        next
          case (Attribute x51 x52 x53)
          with assms(1) unfolded False Some keep grow show ?thesis
            by (cases "d < 0") (auto simp: Let_def)
        next
          case (Annotate x61 x62 x63)
          with assms(1) unfolded False Some keep grow show ?thesis
            by (cases "d < 0") (auto simp: Let_def)
        qed
      qed
    qed
  qed
qed

lemma adjustBothObjects_extends:
  assumes "adjustBothObjects h r1 pl1 d1 r2 pl2 d2 = (res, h')" and "extends h0 h"
    and "length h0 \<le> r1" and "length h0 \<le> r2"
  shows "extends h0 h' \<and>
         (\<forall>x c ap. lookup h x = Some (TransactionObject c ap) \<longrightarrow>
                   lookup h' x = Some (TransactionObject c ap))"
proof -
  obtain res1 h1 where first: "adjustRetainObject h r1 pl1 d1 = (res1, h1)"
    by (cases "adjustRetainObject h r1 pl1 d1")
  note one = adjustRetainObject_extends [OF first assms(2,3)]
  show ?thesis
  proof (cases res1)
    case (Inl e)
    with assms(1) first one show ?thesis by (simp add: adjustBothObjects_def)
  next
    case (Inr u)
    with assms(1) first have second: "adjustRetainObject h1 r2 pl2 d2 = (res, h')"
      by (simp add: adjustBothObjects_def)
    from one have e1: "extends h0 h1" by simp
    from adjustRetainObject_extends [OF second e1 assms(4)] one show ?thesis by simp
  qed
qed

lemma lookup_extends:
  "extends h0 h \<Longrightarrow> lookup h0 x = Some obj \<Longrightarrow> lookup h x = Some obj"
  using extends_old [of h0 h x] extends_length [of h0 h]
  by (auto simp: lookup_def split: if_splits)

lemma those_map_cong:
  "those (map f xs) = Some ys \<Longrightarrow> (\<And>x y. f x = Some y \<Longrightarrow> g x = Some y) \<Longrightarrow>
   those (map g xs) = Some ys"
proof (induction xs arbitrary: ys)
  case Nil
  then show ?case by simp
next
  case (Cons x xs)
  from Cons.prems(1) obtain y zs where y: "f x = Some y" and zs: "those (map f xs) = Some zs"
    and ys: "ys = y # zs"
    by (auto split: option.splits)
  from Cons.IH [OF zs Cons.prems(2)] Cons.prems(2) [OF y] ys show ?case by simp
qed

lemma readOperation_extends:
  "extends h0 h \<Longrightarrow> readOperation h0 p = Some y \<Longrightarrow> readOperation h p = Some y"
  by (auto simp: readOperation_def split: option.splits object.splits
      dest: lookup_extends)

lemma readOperations_extends:
  "extends h0 h \<Longrightarrow> readOperations h0 r = Some ops \<Longrightarrow> readOperations h r = Some ops"
proof -
  assume e: "extends h0 h" and r: "readOperations h0 r = Some ops"
  from r obtain refs where refs: "lookup h0 r = Some (ArrayObject refs)"
    and ops: "those (map (readOperation h0) refs) = Some ops"
    by (auto simp: readOperations_def split: option.splits object.splits)
  from those_map_cong [OF ops, of "readOperation h"] readOperation_extends [OF e]
  have "those (map (readOperation h) refs) = Some ops" by blast
  with lookup_extends [OF e refs] show ?thesis by (simp add: readOperations_def)
qed

lemma readTransaction_extends:
  "extends h0 h \<Longrightarrow> readTransaction h0 t = Some tr \<Longrightarrow> readTransaction h t = Some tr"
proof -
  assume e: "extends h0 h" and t: "readTransaction h0 t = Some tr"
  from t obtain r ap ops where obj: "lookup h0 t = Some (TransactionObject r ap)"
    and ops: "readOperations h0 r = Some ops" and tr: "tr = \<lparr>operations = ops, applied = ap\<rparr>"
    by (auto simp: readTransaction_def split: option.splits object.splits)
  from lookup_extends [OF e obj] readOperations_extends [OF e ops] tr
  show ?thesis by (simp add: readTransaction_def)
qed

lemma rebaseTransactionsObjects_extends:
  assumes "rebaseTransactionsObjects h transactionA transactionB = (res, h')"
  shows "extends h h' \<and>
         (\<forall>a b. res = Inr (Some a, Some b) \<longrightarrow>
            length h \<le> a \<and> a < b \<and>
            appliedOf h' a = Some False \<and> appliedOf h' b = Some False)"
proof -
  obtain resA h1 where cloneA: "cloneObject h transactionA = (resA, h1)"
    by (cases "cloneObject h transactionA")
  from cloneObject_extends [OF cloneA extends_refl]
  have e1: "extends h h1"
    and a: "\<And>a. resA = Inr a \<Longrightarrow>
              length h \<le> a \<and> a < length h1 \<and> (\<exists>c. lookup h1 a = Some (TransactionObject c False))"
    by auto
  show ?thesis
  proof (cases resA)
    case (Inl e)
    with assms cloneA e1 show ?thesis by (auto simp: rebaseTransactionsObjects_def)
  next
    case (Inr a')
    from a [OF Inr] obtain ca where a1: "length h \<le> a'" "a' < length h1"
      and ca: "lookup h1 a' = Some (TransactionObject ca False)" by auto
    obtain resB h2 where cloneB: "cloneObject h1 transactionB = (resB, h2)"
      by (cases "cloneObject h1 transactionB")
    from cloneObject_extends [OF cloneB e1]
    have e2: "extends h h2"
      and b: "\<And>b. resB = Inr b \<Longrightarrow>
              length h1 \<le> b \<and> b < length h2 \<and> (\<exists>c. lookup h2 b = Some (TransactionObject c False))"
      by auto
    from cloneObject_extends [OF cloneB extends_refl] have e12: "extends h1 h2" by simp
    show ?thesis
    proof (cases resB)
      case (Inl e)
      with assms cloneA cloneB Inr e2 show ?thesis by (auto simp: rebaseTransactionsObjects_def)
    next
      case (Inr b')
      from b [OF Inr] obtain cb where b1: "length h1 \<le> b'" "b' < length h2"
        and cb: "lookup h2 b' = Some (TransactionObject cb False)" by auto
      have ca2: "lookup h2 a' = Some (TransactionObject ca False)"
        using lookup_extends [OF e12 ca] .
      have fresh_a: "length h \<le> ca"
        using extends_nth [OF e2 a1(1), of] ca2 a1 e12
        by (auto simp: lookup_def freshObject_def split: if_splits)
      have fresh_b: "length h \<le> cb"
        using extends_nth [OF e2, of b'] cb b1 a1 extends_length [OF e1]
        by (auto simp: lookup_def freshObject_def split: if_splits)
      have ops: "operationsOf h2 a' = Some ca" "operationsOf h2 b' = Some cb"
        using ca2 cb by (simp_all add: operationsOf_def)
      have both: "extends h h3 \<and> appliedOf h3 a' = Some False \<and> appliedOf h3 b' = Some False"
        if "adjustBothObjects h2 r1 pl1 d1 r2 pl2 d2 = (res3, h3)"
          and "r1 = ca \<and> r2 = cb \<or> r1 = cb \<and> r2 = ca"
        for r1 pl1 d1 r2 pl2 d2 res3 h3
      proof -
        from that(2) fresh_a fresh_b have "length h \<le> r1" "length h \<le> r2" by auto
        from adjustBothObjects_extends [OF that(1) e2 this]
        have e3: "extends h h3"
          and keep: "\<And>x c ap. lookup h2 x = Some (TransactionObject c ap) \<Longrightarrow>
                      lookup h3 x = Some (TransactionObject c ap)"
          by auto
        from keep [OF ca2] keep [OF cb] e3 show ?thesis by (simp add: appliedOf_def)
      qed
      have none: "extends h h2 \<and> appliedOf h2 a' = Some False \<and> appliedOf h2 b' = Some False"
        using e2 ca2 cb by (simp add: appliedOf_def)
      have ab: "length h \<le> a'" "a' < b'" using a1 b1 by simp_all
      show ?thesis
      proof (cases "readTransaction h2 a'")
        case None
        with assms cloneA cloneB \<open>resA = Inr a'\<close> Inr e2 show ?thesis
          by (auto simp: rebaseTransactionsObjects_def)
      next
        case (Some ta)
        note ta = Some
        show ?thesis
        proof (cases "readTransaction h2 b'")
          case None
          with assms cloneA cloneB \<open>resA = Inr a'\<close> Inr e2 ta show ?thesis
            by (auto simp: rebaseTransactionsObjects_def)
        next
          case (Some tb)
          let ?infoA = "getActiveRangeAndLengthDiff ta" and ?infoB = "getActiveRangeAndLengthDiff tb"
          obtain r3 h3 where adj1: "adjustBothObjects h2 ca AtStart (diff ?infoB)
                                      cb AtStart (diff ?infoA) = (r3, h3)"
            by (cases "adjustBothObjects h2 ca AtStart (diff ?infoB) cb AtStart (diff ?infoA)")
          obtain r4 h4 where adj2: "adjustBothObjects h2 cb AtStart (diff ?infoA)
                                      ca AtEnd (diff ?infoB) = (r4, h4)"
            by (cases "adjustBothObjects h2 cb AtStart (diff ?infoA) ca AtEnd (diff ?infoB)")
          obtain r5 h5 where adj3: "adjustBothObjects h2 ca AtStart (diff ?infoB)
                                      cb AtEnd (diff ?infoA) = (r5, h5)"
            by (cases "adjustBothObjects h2 ca AtStart (diff ?infoB) cb AtEnd (diff ?infoA)")
          note b3 = both [OF adj1] and b4 = both [OF adj2] and b5 = both [OF adj3]
          from assms cloneA cloneB \<open>resA = Inr a'\<close> Inr ta Some ops adj1 adj2 adj3
          have "(res, h') =
            (if activeStart ?infoA = None \<or> activeStart ?infoB = None then
               (case r3 of Inl e \<Rightarrow> (Inl e, h3) | Inr u \<Rightarrow> (Inr (Some a', Some b'), h3))
             else if lessEqDefined (activeEnd ?infoA) (activeStart ?infoB) then
               (case r4 of Inl e \<Rightarrow> (Inl e, h4) | Inr u \<Rightarrow> (Inr (Some a', Some b'), h4))
             else if lessEqDefined (activeEnd ?infoB) (activeStart ?infoA) then
               (case r5 of Inl e \<Rightarrow> (Inl e, h5) | Inr u \<Rightarrow> (Inr (Some a', Some b'), h5))
             else (Inr (None, None), h2))"
            by (simp add: rebaseTransactionsObjects_def Let_def cong: if_cong)
          with b3 b4 b5 none ab show ?thesis
            by (auto split: if_splits sum.splits)
        qed
      qed
    qed
  qed
qed

text \<open>
  C10. \<^verbatim>\<open>rebaseTransactions\<close> does not change the transactions it is given: whatever
  it returns or throws, every object that was in the store before the call is the same
  after it, so each input holds the same operations and the same \<^verbatim>\<open>applied\<close> flag; and
  when it returns two transactions, they are two different objects, neither of them an
  input, with \<^verbatim>\<open>applied = false\<close>.
\<close>

theorem rebaseTransactionsObjects_leaves_inputs:
  assumes "rebaseTransactionsObjects h transactionA transactionB = (res, h')"
    and "readTransaction h transactionA = Some ta"
    and "readTransaction h transactionB = Some tb"
  shows "take (length h) h' = h \<and>
         readTransaction h' transactionA = Some ta \<and>
         readTransaction h' transactionB = Some tb \<and>
         (\<forall>a b. res = Inr (Some a, Some b) \<longrightarrow>
            a \<notin> {transactionA, transactionB} \<and> b \<notin> {transactionA, transactionB} \<and> a \<noteq> b \<and>
            appliedOf h' a = Some False \<and> appliedOf h' b = Some False)"
proof -
  from rebaseTransactionsObjects_extends [OF assms(1)]
  have e: "extends h h'"
    and fresh: "\<And>a b. res = Inr (Some a, Some b) \<Longrightarrow>
            length h \<le> a \<and> a < b \<and> appliedOf h' a = Some False \<and> appliedOf h' b = Some False"
    by auto
  have inA: "transactionA < length h" and inB: "transactionB < length h"
    using assms(2,3)
    by (auto simp: readTransaction_def lookup_def split: if_splits option.splits)
  from e have "take (length h) h' = h" by (rule extends_take)
  moreover note readTransaction_extends [OF e assms(2)] readTransaction_extends [OF e assms(3)]
  moreover have "a \<notin> {transactionA, transactionB} \<and> b \<notin> {transactionA, transactionB} \<and> a \<noteq> b \<and>
            appliedOf h' a = Some False \<and> appliedOf h' b = Some False"
    if "res = Inr (Some a, Some b)" for a b
    using fresh [OF that] inA inB by auto
  ultimately show ?thesis by blast
qed

theorem rebaseTransactionsObjects_leaves_inputs_witness:
  "fst (rebaseTransactionsObjects twoTransactions 3 7) = Inr (Some 9, Some 14) \<and>
   take (length twoTransactions) (snd (rebaseTransactionsObjects twoTransactions 3 7)) =
     twoTransactions \<and>
   readTransaction (snd (rebaseTransactionsObjects twoTransactions 3 7)) 3 =
     Some removeFirst \<and>
   readTransaction (snd (rebaseTransactionsObjects twoTransactions 3 7)) 7 =
     Some (removeSecond\<lparr>applied := True\<rparr>) \<and>
   appliedOf (snd (rebaseTransactionsObjects twoTransactions 3 7)) 9 = Some False \<and>
   appliedOf (snd (rebaseTransactionsObjects twoTransactions 3 7)) 14 = Some False"
proof -
  have res: "fst (rebaseTransactionsObjects twoTransactions 3 7) = Inr (Some 9, Some 14)"
    by code_simp
  have pair: "rebaseTransactionsObjects twoTransactions 3 7 =
      (Inr (Some 9, Some 14), snd (rebaseTransactionsObjects twoTransactions 3 7))"
    using res by (simp add: prod_eq_iff)
  have first: "readTransaction twoTransactions 3 = Some removeFirst"
    by (simp add: readTransaction_def readOperations_def readOperation_def lookup_def
        twoTransactions_def removeFirst_def Transaction_def)
  have second: "readTransaction twoTransactions 7 = Some (removeSecond\<lparr>applied := True\<rparr>)"
    by (simp add: readTransaction_def readOperations_def readOperation_def lookup_def
        twoTransactions_def removeSecond_def Transaction_def)
  from rebaseTransactionsObjects_leaves_inputs [OF pair first second] res
  show ?thesis by simp
qed

text \<open>
  On these two transactions the clones in the store end up holding the transactions that
  \<open>rebaseTransactions\<close> computes on values.
\<close>

lemma rebaseTransactionsObjects_example:
  "readTransaction (snd (rebaseTransactionsObjects twoTransactions 3 7)) 9 =
     Some (Transaction [Replace [Character CHR ''a'' []] [] None None None None]) \<and>
   readTransaction (snd (rebaseTransactionsObjects twoTransactions 3 7)) 14 =
     Some (Transaction [Replace [Character CHR ''b'' []] [] None None None None])"
  by code_simp


subsection \<open>Rebase on objects and rebase on values\<close>

lemma those_map_Some: "those (map Some xs) = Some xs"
  by (induction xs) simp_all

lemma holdsOperations_length: "holdsOperations h r refs ops \<Longrightarrow> length refs = length ops"
  by (auto simp: holdsOperations_def dest: map_eq_imp_length_eq)

lemma holdsOperations_nth:
  "holdsOperations h r refs ops \<Longrightarrow> k < length refs \<Longrightarrow>
   lookup h (refs ! k) = Some (OperationObject (ops ! k))"
proof -
  assume ho: "holdsOperations h r refs ops" and k: "k < length refs"
  then have "map (lookup h) refs ! k = map (\<lambda>x. Some (OperationObject x)) ops ! k"
    by (simp add: holdsOperations_def)
  with k holdsOperations_length [OF ho] show ?thesis by simp
qed

lemma holdsOperations_member:
  "holdsOperations h r refs ops \<Longrightarrow> q \<in> set refs \<Longrightarrow>
   q < length h \<and> q \<noteq> r \<and> (\<exists>x. h ! q = OperationObject x)"
proof -
  assume ho: "holdsOperations h r refs ops" and q: "q \<in> set refs"
  then obtain k where k: "k < length refs" "refs ! k = q" by (auto simp: in_set_conv_nth)
  from holdsOperations_nth [OF ho k(1)] k(2)
  have "lookup h q = Some (OperationObject (ops ! k))" by simp
  moreover from ho have "lookup h r = Some (ArrayObject refs)" by (simp add: holdsOperations_def)
  ultimately show ?thesis by (auto simp: lookup_def split: if_splits)
qed

lemma holdsOperations_read:
  assumes "holdsOperations h r refs ops"
  shows "readOperations h r = Some ops"
proof -
  have "map (readOperation h) refs = map Some ops"
  proof (rule nth_equalityI)
    show "length (map (readOperation h) refs) = length (map Some ops)"
      using holdsOperations_length [OF assms] by simp
  next
    fix k assume "k < length (map (readOperation h) refs)"
    then have k: "k < length refs" by simp
    from holdsOperations_nth [OF assms k] k holdsOperations_length [OF assms]
    show "map (readOperation h) refs ! k = map Some ops ! k"
      by (simp add: readOperation_def)
  qed
  with assms show ?thesis
    by (simp add: readOperations_def holdsOperations_def those_map_Some)
qed

lemma holdsOperations_opAt:
  assumes "holdsOperations h r refs ops"
  shows "(case arrayGet refs i of Some p \<Rightarrow> readOperation h p | None \<Rightarrow> None) = arrayGet ops i"
proof (cases "0 \<le> i \<and> i < int (length refs)")
  case True
  then have k: "nat i < length refs" by (simp add: nat_less_iff)
  from holdsOperations_nth [OF assms k] True holdsOperations_length [OF assms]
  show ?thesis by (simp add: arrayGet_def readOperation_def)
next
  case False
  with holdsOperations_length [OF assms] show ?thesis by (auto simp: arrayGet_def)
qed

text \<open>
  \<^verbatim>\<open>adjustRetain\<close> on an array that holds \<open>ops\<close>, with every read of the store replaced
  by a read of \<open>ops\<close>.
\<close>

lemma adjustRetainObject_as_opAt:
  assumes "holdsOperations h r refs ops"
  shows "adjustRetainObject h r pl d =
      (let i = (if pl \<noteq> AtStart \<and>
                   (case arrayGet ops (if pl = AtStart then 0 else int (length refs) - 1) of
                      Some (RetainMetadata n) \<Rightarrow> True | _ \<Rightarrow> False)
                then int (length refs) - 2
                else (if pl = AtStart then 0 else int (length refs) - 1))
       in if d = 0 then (Inr (), h)
       else case arrayGet ops i of
              Some (Retain n) \<Rightarrow>
                (if int n + d < 0 then (Inl NegativeRetainLength, h)
                 else
                   let h1 = h[refs ! nat i := OperationObject (Retain (nat (int n + d)))]
                   in if int n + d = 0
                      then (Inr (), h1[r := ArrayObject (take (nat i) refs @ drop (nat i + 1) refs)])
                      else (Inr (), h1))
            | _ \<Rightarrow>
                (if d < 0 then (Inl NegativeRetainLength, h)
                 else
                   let p = length h;
                       h1 = h @ [OperationObject (Retain (nat d))]
                   in (Inr (), h1[r := ArrayObject (if pl = AtStart then p # refs else refs @ [p])])))"
proof -
  have arr: "lookup h r = Some (ArrayObject refs)"
    using assms by (simp add: holdsOperations_def)
  note opAt = holdsOperations_opAt [OF assms]
  show ?thesis
    by (simp add: adjustRetainObject_def arr Let_def opAt)
qed

lemma holdsOperations_iff:
  "holdsOperations h r refs ops \<longleftrightarrow>
     lookup h r = Some (ArrayObject refs) \<and> distinct refs \<and> length refs = length ops \<and>
     (\<forall>k < length refs. lookup h (refs ! k) = Some (OperationObject (ops ! k)))"
  (is "?l \<longleftrightarrow> ?r")
proof
  assume ?l
  then show ?r
    using holdsOperations_length [of h r refs ops] holdsOperations_nth [of h r refs ops]
    by (simp add: holdsOperations_def)
next
  assume r: ?r
  then have "map (lookup h) refs = map (\<lambda>x. Some (OperationObject x)) ops"
    by (intro nth_equalityI) simp_all
  with r show ?l by (simp add: holdsOperations_def)
qed

text \<open>
  The three writes of \<^verbatim>\<open>adjustRetain\<close> (to an operation, the removal of an element of the
  array, a new retain at an end of the array) and a write elsewhere in the store.
\<close>

lemma holdsOperations_update:
  assumes "holdsOperations h r refs ops" and "k < length refs"
  shows "holdsOperations (h[refs ! k := OperationObject y]) r refs (ops[k := y])"
proof -
  from assms have mem: "refs ! k < length h" "refs ! k \<noteq> r"
    using holdsOperations_member [of h r refs ops "refs ! k"] by auto
  from assms(1) have d: "distinct refs" and arr: "lookup h r = Some (ArrayObject refs)"
    and len: "length refs = length ops"
    and nth: "\<And>j. j < length refs \<Longrightarrow> lookup h (refs ! j) = Some (OperationObject (ops ! j))"
    by (simp_all add: holdsOperations_iff)
  have "lookup (h[refs ! k := OperationObject y]) (refs ! j) =
          Some (OperationObject (ops[k := y] ! j))" if j: "j < length refs" for j
  proof (cases "j = k")
    case True
    with mem len j show ?thesis by (simp add: lookup_def)
  next
    case False
    with d j assms(2) have "refs ! j \<noteq> refs ! k" by (simp add: nth_eq_iff_index_eq)
    with nth [OF j] False show ?thesis by (auto simp: lookup_def split: if_splits)
  qed
  moreover have "lookup (h[refs ! k := OperationObject y]) r = Some (ArrayObject refs)"
    using arr mem by (auto simp: lookup_def split: if_splits)
  ultimately show ?thesis using d len by (simp add: holdsOperations_iff)
qed

lemma holdsOperations_frame:
  assumes "holdsOperations h r refs ops"
    and "length h \<le> length h'"
    and "h' ! r = h ! r"
    and "\<And>q. q \<in> set refs \<Longrightarrow> h' ! q = h ! q"
  shows "holdsOperations h' r refs ops"
proof -
  from assms(1) have d: "distinct refs" and arr: "lookup h r = Some (ArrayObject refs)"
    and len: "length refs = length ops"
    and nth: "\<And>j. j < length refs \<Longrightarrow> lookup h (refs ! j) = Some (OperationObject (ops ! j))"
    by (simp_all add: holdsOperations_iff)
  have "lookup h' (refs ! j) = Some (OperationObject (ops ! j))" if j: "j < length refs" for j
    using nth [OF j] assms(2) assms(4) [of "refs ! j"] j
    by (auto simp: lookup_def split: if_splits)
  moreover have "lookup h' r = Some (ArrayObject refs)"
    using arr assms(2,3) by (auto simp: lookup_def split: if_splits)
  ultimately show ?thesis using d len by (simp add: holdsOperations_iff)
qed

lemma holdsOperations_remove:
  assumes "holdsOperations h r refs ops"
  shows "holdsOperations (h[r := ArrayObject (take k refs @ drop (Suc k) refs)]) r
           (take k refs @ drop (Suc k) refs) (take k ops @ drop (Suc k) ops)"
proof -
  let ?h = "h[r := ArrayObject (take k refs @ drop (Suc k) refs)]"
  from assms have d: "distinct refs" and arr: "lookup h r = Some (ArrayObject refs)"
    and maps: "map (lookup h) refs = map (\<lambda>x. Some (OperationObject x)) ops"
    by (simp_all add: holdsOperations_def)
  from arr have r: "r < length h" by (simp add: lookup_def split: if_splits)
  have same: "lookup ?h q = lookup h q" if "q \<in> set refs" for q
    using holdsOperations_member [OF assms that] by (simp add: lookup_def)
  have d': "distinct (take k refs @ drop (Suc k) refs)"
  proof (cases "k < length refs")
    case True
    from id_take_nth_drop [OF True] d
    have "distinct (take k refs @ refs ! k # drop (Suc k) refs)" by simp
    then show ?thesis by simp
  next
    case False
    with d show ?thesis by simp
  qed
  have "map (lookup ?h) (take k refs @ drop (Suc k) refs) =
        map (lookup h) (take k refs @ drop (Suc k) refs)"
    by (rule map_cong) (auto dest: in_set_takeD in_set_dropD intro: same)
  also have "\<dots> = take k (map (lookup h) refs) @ drop (Suc k) (map (lookup h) refs)"
    by (simp add: take_map drop_map)
  also have "\<dots> = map (\<lambda>x. Some (OperationObject x)) (take k ops @ drop (Suc k) ops)"
    unfolding maps by (simp add: take_map drop_map)
  finally show ?thesis using d' r by (simp add: holdsOperations_def lookup_def)
qed


lemma holdsOperations_insert:
  assumes "holdsOperations h r refs ops"
  shows "holdsOperations ((h @ [OperationObject y])[r := ArrayObject (length h # refs)]) r
           (length h # refs) (y # ops)"
    and "holdsOperations ((h @ [OperationObject y])[r := ArrayObject (refs @ [length h])]) r
           (refs @ [length h]) (ops @ [y])"
proof -
  from assms have d: "distinct refs" and arr: "lookup h r = Some (ArrayObject refs)"
    and len: "length refs = length ops"
    and nth: "\<And>j. j < length refs \<Longrightarrow> lookup h (refs ! j) = Some (OperationObject (ops ! j))"
    by (simp_all add: holdsOperations_iff)
  from arr have r: "r < length h" by (simp add: lookup_def split: if_splits)
  have mem: "q < length h \<and> q \<noteq> r" if "q \<in> set refs" for q
    using holdsOperations_member [OF assms that] by simp
  then have fresh: "length h \<notin> set refs" by auto
  have old: "lookup ((h @ [OperationObject y])[r := ArrayObject xs]) (refs ! j) =
               Some (OperationObject (ops ! j))" if "j < length refs" for j xs
    using nth [OF that] mem [of "refs ! j"] that
    by (auto simp: lookup_def nth_append split: if_splits)
  have new: "lookup ((h @ [OperationObject y])[r := ArrayObject xs]) (length h) =
               Some (OperationObject y)" for xs
    using r by (simp add: lookup_def)
  have at: "lookup ((h @ [OperationObject y])[r := ArrayObject xs]) r = Some (ArrayObject xs)" for xs
    using r by (simp add: lookup_def)
  show "holdsOperations ((h @ [OperationObject y])[r := ArrayObject (length h # refs)]) r
           (length h # refs) (y # ops)"
    unfolding holdsOperations_iff
    using d len fresh at old new by (auto simp: nth_Cons split: nat.splits)
  show "holdsOperations ((h @ [OperationObject y])[r := ArrayObject (refs @ [length h])]) r
           (refs @ [length h]) (ops @ [y])"
    unfolding holdsOperations_iff
    using d len fresh at old new by (auto simp: nth_append)
qed

text \<open>
  \<^verbatim>\<open>adjustRetain\<close> on objects does to the array what \<^verbatim>\<open>adjustRetain\<close> on values does to
  the list that the array holds, throws when it throws, and writes to the array, to its
  operations and to new objects only.
\<close>

lemma adjustRetainObject_refines:
  assumes ho: "holdsOperations h r refs ops"
    and run: "adjustRetainObject h r pl d = (res, h')"
  shows "(case adjustRetain ops pl d of
            Inl e \<Rightarrow> res = Inl e \<and> h' = h
          | Inr ops' \<Rightarrow>
              res = Inr () \<and>
              (\<exists>refs'. holdsOperations h' r refs' ops' \<and> set refs' \<subseteq> insert (length h) (set refs))) \<and>
         length h \<le> length h' \<and>
         (\<forall>x. x < length h \<longrightarrow> x \<noteq> r \<longrightarrow> x \<notin> set refs \<longrightarrow> h' ! x = h ! x)"
proof -
  note len = holdsOperations_length [OF ho]
  define i where
    "i = (if pl \<noteq> AtStart \<and>
             (case arrayGet ops (if pl = AtStart then 0 else int (length ops) - 1) of
                Some (RetainMetadata n) \<Rightarrow> True | _ \<Rightarrow> False)
          then int (length ops) - 2
          else (if pl = AtStart then 0 else int (length ops) - 1))"
  have obj: "adjustRetainObject h r pl d =
      (if d = 0 then (Inr (), h)
       else case arrayGet ops i of
              Some (Retain n) \<Rightarrow>
                (if int n + d < 0 then (Inl NegativeRetainLength, h)
                 else
                   let h1 = h[refs ! nat i := OperationObject (Retain (nat (int n + d)))]
                   in if int n + d = 0
                      then (Inr (), h1[r := ArrayObject (take (nat i) refs @ drop (nat i + 1) refs)])
                      else (Inr (), h1))
            | _ \<Rightarrow>
                (if d < 0 then (Inl NegativeRetainLength, h)
                 else
                   let p = length h;
                       h1 = h @ [OperationObject (Retain (nat d))]
                   in (Inr (), h1[r := ArrayObject (if pl = AtStart then p # refs else refs @ [p])])))"
    unfolding adjustRetainObject_as_opAt [OF ho] i_def len Let_def by simp
  have val: "adjustRetain ops pl d =
      (if d = 0 then Inr ops
       else case arrayGet ops i of
              Some (Retain n) \<Rightarrow>
                (if int n + d < 0 then Inl NegativeRetainLength
                 else if int n + d = 0 then Inr (take (nat i) ops @ drop (nat i + 1) ops)
                 else Inr (ops[nat i := Retain (nat (int n + d))]))
            | _ \<Rightarrow>
                (if d < 0 then Inl NegativeRetainLength
                 else Inr (if pl = AtStart then Retain (nat d) # ops else ops @ [Retain (nat d)])))"
    unfolding adjustRetain_def i_def Let_def by simp
  have keep: "holdsOperations h r refs ops \<and> set refs \<subseteq> insert (length h) (set refs)"
    using ho by auto
  have grow: "res = Inr () \<and>
        (\<exists>refs'. holdsOperations h' r refs'
                    (if pl = AtStart then Retain (nat d) # ops else ops @ [Retain (nat d)]) \<and>
                  set refs' \<subseteq> insert (length h) (set refs)) \<and>
        length h \<le> length h' \<and>
        (\<forall>x. x < length h \<longrightarrow> x \<noteq> r \<longrightarrow> x \<notin> set refs \<longrightarrow> h' ! x = h ! x)"
    if "(res, h') = (Inr (), (h @ [OperationObject (Retain (nat d))])
                       [r := ArrayObject (if pl = AtStart then length h # refs else refs @ [length h])])"
  proof -
    from that have res: "res = Inr ()"
      and h': "h' = (h @ [OperationObject (Retain (nat d))])
                       [r := ArrayObject (if pl = AtStart then length h # refs else refs @ [length h])]"
      by simp_all
    have "holdsOperations h' r (if pl = AtStart then length h # refs else refs @ [length h])
            (if pl = AtStart then Retain (nat d) # ops else ops @ [Retain (nat d)])"
      unfolding h' using holdsOperations_insert [OF ho, of "Retain (nat d)"] by simp
    moreover have "set (if pl = AtStart then length h # refs else refs @ [length h])
                     \<subseteq> insert (length h) (set refs)" by auto
    moreover have "length h \<le> length h'" unfolding h' by simp
    moreover have "h' ! x = h ! x" if "x < length h" "x \<noteq> r" for x
      unfolding h' using that by (simp add: nth_append)
    ultimately show ?thesis using res by blast
  qed
  show ?thesis
  proof (cases "d = 0")
    case True
    with run obj val keep show ?thesis by auto
  next
    case False
    note d = False
    show ?thesis
    proof (cases "\<exists>n. arrayGet ops i = Some (Retain n)")
      case True
      then obtain n where n: "arrayGet ops i = Some (Retain n)" by blast
      then have i: "0 \<le> i" "nat i < length refs" "ops ! nat i = Retain n"
        using len by (auto simp: arrayGet_def nat_less_iff split: if_splits)
      let ?h1 = "h[refs ! nat i := OperationObject (Retain (nat (int n + d)))]"
      let ?h2 = "?h1[r := ArrayObject (take (nat i) refs @ drop (nat i + 1) refs)]"
      have p: "refs ! nat i \<in> set refs" using i by simp
      have h1: "holdsOperations ?h1 r refs (ops[nat i := Retain (nat (int n + d))])"
        using holdsOperations_update [OF ho i(2)] .
      have h2: "holdsOperations ?h2 r (take (nat i) refs @ drop (nat i + 1) refs)
                  (take (nat i) (ops[nat i := Retain (nat (int n + d))]) @
                   drop (nat i + 1) (ops[nat i := Retain (nat (int n + d))]))"
        using holdsOperations_remove [OF h1, of "nat i"] by simp
      have ops2: "take (nat i) (ops[nat i := Retain (nat (int n + d))]) @
                   drop (nat i + 1) (ops[nat i := Retain (nat (int n + d))]) =
                  take (nat i) ops @ drop (nat i + 1) ops"
        by simp
      have sub: "set (take (nat i) refs @ drop (nat i + 1) refs) \<subseteq> insert (length h) (set refs)"
        by (auto dest: in_set_takeD in_set_dropD)
      have same1: "?h1 ! x = h ! x" if "x \<notin> set refs" for x
        using that p by (metis nth_list_update_neq)
      have same2: "?h2 ! x = h ! x" if "x \<notin> set refs" "x \<noteq> r" for x
        using that same1 by simp
      show ?thesis
      proof (cases "int n + d < 0")
        case True
        with run obj val d n show ?thesis by simp
      next
        case False
        note nonneg = False
        show ?thesis
        proof (cases "int n + d = 0")
          case True
          with run obj d n nonneg have r1: "res = Inr ()" and r2: "h' = ?h2"
            by (simp_all add: Let_def)
          from val d n nonneg True
          have v: "adjustRetain ops pl d = Inr (take (nat i) ops @ drop (nat i + 1) ops)" by simp
          have ex: "\<exists>refs'. holdsOperations h' r refs' (take (nat i) ops @ drop (nat i + 1) ops) \<and>
                      set refs' \<subseteq> insert (length h) (set refs)"
            using h2 sub unfolding ops2 r2 by blast
          have fr: "\<forall>x. x < length h \<longrightarrow> x \<noteq> r \<longrightarrow> x \<notin> set refs \<longrightarrow> h' ! x = h ! x"
            unfolding r2 using same2 by blast
          have ln: "length h \<le> length h'" unfolding r2 by simp
          show ?thesis unfolding v using r1 ex fr ln by simp
        next
          case False
          with run obj d n nonneg have r1: "res = Inr ()" and r2: "h' = ?h1"
            by (simp_all add: Let_def)
          from val d n nonneg False
          have v: "adjustRetain ops pl d = Inr (ops[nat i := Retain (nat (int n + d))])" by simp
          have ex: "\<exists>refs'. holdsOperations h' r refs' (ops[nat i := Retain (nat (int n + d))]) \<and>
                      set refs' \<subseteq> insert (length h) (set refs)"
            using h1 unfolding r2 by blast
          have fr: "\<forall>x. x < length h \<longrightarrow> x \<noteq> r \<longrightarrow> x \<notin> set refs \<longrightarrow> h' ! x = h ! x"
            unfolding r2 using same1 by blast
          have ln: "length h \<le> length h'" unfolding r2 by simp
          show ?thesis unfolding v using r1 ex fr ln by simp
        qed
      qed
    next
      case False
      then have obj': "adjustRetainObject h r pl d =
          (if d < 0 then (Inl NegativeRetainLength, h)
           else (Inr (), (h @ [OperationObject (Retain (nat d))])
                   [r := ArrayObject (if pl = AtStart then length h # refs else refs @ [length h])]))"
        using d unfolding obj
        by (auto simp: Let_def split: option.splits operation.splits)
      from False have val': "adjustRetain ops pl d =
          (if d < 0 then Inl NegativeRetainLength
           else Inr (if pl = AtStart then Retain (nat d) # ops else ops @ [Retain (nat d)]))"
        using d unfolding val
        by (auto split: option.splits operation.splits)
      show ?thesis
      proof (cases "d < 0")
        case True
        with run obj' val' show ?thesis by simp
      next
        case False
        with run obj' have "(res, h') = (Inr (), (h @ [OperationObject (Retain (nat d))])
                   [r := ArrayObject (if pl = AtStart then length h # refs else refs @ [length h])])"
          by simp
        from grow [OF this] val' False show ?thesis by simp
      qed
    qed
  qed
qed


text \<open>The clone has an array of its own, of new operation objects.\<close>

lemma extends_empty: "extends [] h"
  by (auto simp: extends_def freshObject_def list_all_iff split: object.splits)

lemma cloneObject_holds:
  assumes "readTransaction h this = Some t" and "cloneObject h this = (res, h1)"
  shows "\<exists>a c refs. res = Inr a \<and> lookup h1 a = Some (TransactionObject c False) \<and>
           holdsOperations h1 c refs (operations t) \<and>
           length h \<le> a \<and> a < length h1 \<and> length h \<le> c \<and> c < length h1 \<and>
           (\<forall>q \<in> set refs. length h \<le> q \<and> q < length h1)"
proof -
  from assms(1) obtain r ap where obj: "lookup h this = Some (TransactionObject r ap)"
    and ops: "readOperations h r = Some (operations t)"
    by (auto simp: readTransaction_def split: option.splits object.splits)
  define ops where "ops = operations t"
  define h2 where "h2 = (h @ [ArrayObject []]) @ [TransactionObject (length h) False]"
  define refs where "refs = [length h2 ..< length h2 + length ops]"
  define h3 where "h3 = (h2 @ map OperationObject ops) @ [ArrayObject refs]"
  define c where "c = length (h2 @ map OperationObject ops)"
  define h4 where "h4 = h3[Suc (length h) := TransactionObject c False]"
  have l2: "length h2 = Suc (Suc (length h))" by (simp add: h2_def)
  have l4: "length h4 = Suc c" by (simp add: h4_def h3_def c_def)
  have cv: "c = length h2 + length ops" by (simp add: c_def)
  have e2: "extends h h2"
    unfolding h2_def by (intro extends_append extends_refl) (simp_all add: freshObject_def)
  have ops2: "readOperations h2 r = Some ops"
    using readOperations_extends [OF e2] ops by (simp add: ops_def)
  have copy: "copyOperations h2 r = (Inr c, h3)"
    using ops2 by (simp add: copyOperations_def Let_def c_def h3_def refs_def)
  have run: "cloneObject h this = (Inr (Suc (length h)), h4)"
    using obj copy unfolding cloneObject_def h2_def h4_def by (simp add: Let_def)
  have tx: "lookup h4 (Suc (length h)) = Some (TransactionObject c False)"
    using l2 by (simp add: lookup_def h4_def h3_def)
  have "h3 ! c = ArrayObject refs"
    unfolding h3_def c_def by (rule nth_append_length)
  then have arr: "lookup h4 c = Some (ArrayObject refs)"
    using l4 l2 cv by (simp add: lookup_def h4_def)
  have nth: "lookup h4 (refs ! k) = Some (OperationObject (ops ! k))" if "k < length ops" for k
  proof -
    have rk: "refs ! k = length h2 + k" using that by (simp add: refs_def)
    have "h3 ! (length h2 + k) = (h2 @ map OperationObject ops) ! (length h2 + k)"
      unfolding h3_def using that by (subst nth_append) simp
    also have "\<dots> = OperationObject (ops ! k)"
      using that by (simp add: nth_append)
    finally have "h4 ! (length h2 + k) = OperationObject (ops ! k)"
      using l2 by (simp add: h4_def)
    then show ?thesis using rk l4 cv that by (simp add: lookup_def)
  qed
  have lr: "length refs = length ops" by (simp add: refs_def)
  have dr: "distinct refs" by (simp add: refs_def)
  have holds: "holdsOperations h4 c refs (operations t)"
    unfolding holdsOperations_def
    using arr dr nth lr by (auto simp: ops_def [symmetric] intro!: nth_equalityI)
  have bounds: "\<forall>q \<in> set refs. length h \<le> q \<and> q < length h4"
    using l2 l4 cv by (auto simp: refs_def)
  from assms(2) run have "res = Inr (Suc (length h))" "h1 = h4" by simp_all
  with tx holds bounds l4 l2 cv show ?thesis by auto
qed

text \<open>
  Two arrays that share no operation object are adjusted independently of each other.
\<close>

lemma adjustBothObjects_refines:
  assumes h1: "holdsOperations h r1 refs1 ops1" and h2: "holdsOperations h r2 refs2 ops2"
    and ne: "r1 \<noteq> r2" and disj: "set refs1 \<inter> set refs2 = {}"
    and run: "adjustBothObjects h r1 pl1 d1 r2 pl2 d2 = (res, h')"
  shows "case adjustBoth ops1 pl1 d1 ops2 pl2 d2 of
           Inl e \<Rightarrow> res = Inl e
         | Inr (o1, o2) \<Rightarrow>
             res = Inr () \<and> readOperations h' r1 = Some o1 \<and> readOperations h' r2 = Some o2"
proof -
  obtain res1 k where first: "adjustRetainObject h r1 pl1 d1 = (res1, k)"
    by (cases "adjustRetainObject h r1 pl1 d1")
  note one = adjustRetainObject_refines [OF h1 first]
  have arr1: "lookup h r1 = Some (ArrayObject refs1)" and arr2: "lookup h r2 = Some (ArrayObject refs2)"
    using h1 h2 by (simp_all add: holdsOperations_def)
  show ?thesis
  proof (cases "adjustRetain ops1 pl1 d1")
    case (Inl e)
    with one run first show ?thesis by (simp add: adjustBothObjects_def adjustBoth_def)
  next
    case (Inr o1)
    with one obtain refs1' where r1: "res1 = Inr ()"
      and k1: "holdsOperations k r1 refs1' o1"
      and sub: "set refs1' \<subseteq> insert (length h) (set refs1)"
      and len: "length h \<le> length k"
      and frame: "\<And>x. x < length h \<Longrightarrow> x \<noteq> r1 \<Longrightarrow> x \<notin> set refs1 \<Longrightarrow> k ! x = h ! x"
      by auto
    have r2in: "r2 < length h" "h ! r2 = ArrayObject refs2"
      using arr2 by (auto simp: lookup_def split: if_splits)
    have r2not: "r2 \<notin> set refs1"
      using holdsOperations_member [OF h1, of r2] r2in by auto
    have q2: "q < length h \<and> q \<noteq> r1 \<and> q \<notin> set refs1" if "q \<in> set refs2" for q
    proof -
      from holdsOperations_member [OF h2 that] obtain x where "q < length h" "h ! q = OperationObject x"
        by auto
      moreover from arr1 have "r1 < length h" "h ! r1 = ArrayObject refs1"
        by (auto simp: lookup_def split: if_splits)
      ultimately show ?thesis using that disj by auto
    qed
    have k2: "holdsOperations k r2 refs2 ops2"
      using h2 len frame [of r2] r2in(1) ne r2not q2 frame
      by (intro holdsOperations_frame [OF h2 len]) auto
    from run first r1 have second: "adjustRetainObject k r2 pl2 d2 = (res, h')"
      by (simp add: adjustBothObjects_def)
    note two = adjustRetainObject_refines [OF k2 second]
    show ?thesis
    proof (cases "adjustRetain ops2 pl2 d2")
      case (Inl e)
      with two Inr show ?thesis by (simp add: adjustBoth_def)
    next
      case (Inr o2)
      with two obtain refs2' where res: "res = Inr ()"
        and hp2: "holdsOperations h' r2 refs2' o2"
        and len2: "length k \<le> length h'"
        and frame2: "\<And>x. x < length k \<Longrightarrow> x \<noteq> r2 \<Longrightarrow> x \<notin> set refs2 \<Longrightarrow> h' ! x = k ! x"
        by auto
      have karr1: "r1 < length k" "k ! r1 = ArrayObject refs1'"
        using k1 by (auto simp: holdsOperations_def lookup_def split: if_splits)
      have karr2: "r2 < length k" "k ! r2 = ArrayObject refs2"
        using k2 by (auto simp: holdsOperations_def lookup_def split: if_splits)
      have r1not: "r1 \<notin> set refs2"
        using holdsOperations_member [OF k2, of r1] karr1 by auto
      have q1: "q < length k \<and> q \<noteq> r2 \<and> q \<notin> set refs2" if "q \<in> set refs1'" for q
      proof -
        from holdsOperations_member [OF k1 that] obtain x where a: "q < length k" "k ! q = OperationObject x"
          by auto
        have "q \<notin> set refs2"
        proof
          assume in2: "q \<in> set refs2"
          with q2 have "q < length h" "q \<notin> set refs1" by auto
          with sub that show False by auto
        qed
        with a karr2 show ?thesis by auto
      qed
      have hp1: "holdsOperations h' r1 refs1' o1"
        using frame2 [of r1] karr1(1) ne r1not q1 frame2
        by (intro holdsOperations_frame [OF k1 len2]) auto
      from holdsOperations_read [OF hp1] holdsOperations_read [OF hp2] res Inr
        \<open>adjustRetain ops1 pl1 d1 = Inr o1\<close>
      show ?thesis by (simp add: adjustBoth_def)
    qed
  qed
qed


lemma adjustBothObjects_transactions:
  assumes h1: "holdsOperations h r1 refs1 ops1" and h2: "holdsOperations h r2 refs2 ops2"
    and ne: "r1 \<noteq> r2" and disj: "set refs1 \<inter> set refs2 = {}"
    and t1: "lookup h t1 = Some (TransactionObject r1 False)"
    and t2: "lookup h t2 = Some (TransactionObject r2 False)"
    and run: "adjustBothObjects h r1 pl1 d1 r2 pl2 d2 = (res, h')"
  shows "case adjustBoth ops1 pl1 d1 ops2 pl2 d2 of
           Inl e \<Rightarrow> res = Inl e
         | Inr (o1, o2) \<Rightarrow>
             res = Inr () \<and> readTransaction h' t1 = Some (Transaction o1) \<and>
             readTransaction h' t2 = Some (Transaction o2)"
proof -
  from adjustBothObjects_extends [OF run extends_empty] t1 t2
  have "lookup h' t1 = Some (TransactionObject r1 False)"
    and "lookup h' t2 = Some (TransactionObject r2 False)"
    by simp_all
  with adjustBothObjects_refines [OF h1 h2 ne disj run] show ?thesis
    by (auto simp: readTransaction_def Transaction_def split: sum.splits)
qed

text \<open>
  \<^verbatim>\<open>rebaseTransactions\<close> on objects computes what \<open>rebaseTransactions\<close> computes on the
  transactions that the two objects hold: it throws when that throws, returns
  \<^verbatim>\<open>[ null, null ]\<close> when that does, and otherwise returns two objects that hold the two
  rebased transactions.
\<close>

lemma rebaseTransactionsObjects_refines:
  assumes ra: "readTransaction h transactionA = Some ta"
    and rb: "readTransaction h transactionB = Some tb"
    and run: "rebaseTransactionsObjects h transactionA transactionB = (res, h')"
  shows "case rebaseTransactions ta tb of
           Inl e \<Rightarrow> res = Inl e
         | Inr (None, None) \<Rightarrow> res = Inr (None, None)
         | Inr (Some ta', Some tb') \<Rightarrow>
             (\<exists>a b. res = Inr (Some a, Some b) \<and>
                readTransaction h' a = Some ta' \<and> readTransaction h' b = Some tb')
         | Inr _ \<Rightarrow> False"
proof -
  obtain resA h1 where cloneA: "cloneObject h transactionA = (resA, h1)"
    by (cases "cloneObject h transactionA")
  from cloneObject_holds [OF ra cloneA] obtain a ca refsA where resA: "resA = Inr a"
    and txA: "lookup h1 a = Some (TransactionObject ca False)"
    and holdsA: "holdsOperations h1 ca refsA (operations ta)"
    and bA: "length h \<le> a" "a < length h1" "length h \<le> ca" "ca < length h1"
    and refsA: "\<forall>q \<in> set refsA. length h \<le> q \<and> q < length h1"
    by blast
  have e1: "extends h h1"
    using cloneObject_extends [OF cloneA extends_refl] by simp
  have rb1: "readTransaction h1 transactionB = Some tb"
    using readTransaction_extends [OF e1 rb] .
  obtain resB h2 where cloneB: "cloneObject h1 transactionB = (resB, h2)"
    by (cases "cloneObject h1 transactionB")
  from cloneObject_holds [OF rb1 cloneB] obtain b cb refsB where resB: "resB = Inr b"
    and txB: "lookup h2 b = Some (TransactionObject cb False)"
    and holdsB: "holdsOperations h2 cb refsB (operations tb)"
    and bB: "length h1 \<le> b" "b < length h2" "length h1 \<le> cb" "cb < length h2"
    and refsB: "\<forall>q \<in> set refsB. length h1 \<le> q \<and> q < length h2"
    by blast
  have e2: "extends h1 h2"
    using cloneObject_extends [OF cloneB extends_refl] by simp
  have txA2: "lookup h2 a = Some (TransactionObject ca False)"
    using lookup_extends [OF e2 txA] .
  have old: "h2 ! x = h1 ! x" if "x < length h1" for x
    using extends_old [OF e2 that] .
  have holdsA2: "holdsOperations h2 ca refsA (operations ta)"
    using refsA bA old by (intro holdsOperations_frame [OF holdsA extends_length [OF e2]]) auto
  have ne: "ca \<noteq> cb" using bA bB by simp
  have disj: "set refsA \<inter> set refsB = {}" using refsA refsB by fastforce
  have disj': "set refsB \<inter> set refsA = {}" using disj by blast
  have readA: "readTransaction h2 a = Some (clone ta)"
    using txA2 holdsOperations_read [OF holdsA2]
    by (simp add: readTransaction_def clone_def Transaction_def)
  have readB: "readTransaction h2 b = Some (clone tb)"
    using txB holdsOperations_read [OF holdsB]
    by (simp add: readTransaction_def clone_def Transaction_def)
  have opsA: "operationsOf h2 a = Some ca" using txA2 by (simp add: operationsOf_def)
  have opsB: "operationsOf h2 b = Some cb" using txB by (simp add: operationsOf_def)
  define infoA where "infoA = getActiveRangeAndLengthDiff ta"
  define infoB where "infoB = getActiveRangeAndLengthDiff tb"
  define finished :: "unit effect \<Rightarrow> (nat option \<times> nat option) effect" where
    "finished = (\<lambda>r. case r of (Inl e, h3) \<Rightarrow> (Inl e, h3)
                              | (Inr u, h3) \<Rightarrow> (Inr (Some a, Some b), h3))"
  have unfoldO: "rebaseTransactionsObjects h transactionA transactionB =
      (if activeStart infoA = None \<or> activeStart infoB = None then
         finished (adjustBothObjects h2 ca AtStart (diff infoB) cb AtStart (diff infoA))
       else if lessEqDefined (activeEnd infoA) (activeStart infoB) then
         finished (adjustBothObjects h2 cb AtStart (diff infoA) ca AtEnd (diff infoB))
       else if lessEqDefined (activeEnd infoB) (activeStart infoA) then
         finished (adjustBothObjects h2 ca AtStart (diff infoB) cb AtEnd (diff infoA))
       else (Inr (None, None), h2))"
    unfolding rebaseTransactionsObjects_def cloneA resA
    by (simp add: cloneB resB readA readB opsA opsB Let_def
        getActiveRangeAndLengthDiff_clone infoA_def infoB_def finished_def)
  have unfoldV: "rebaseTransactions ta tb =
      (if activeStart infoA = None \<or> activeStart infoB = None then
         (case adjustBoth (operations ta) AtStart (diff infoB) (operations tb) AtStart (diff infoA) of
            Inl e \<Rightarrow> Inl e
          | Inr (x, y) \<Rightarrow> Inr (Some (Transaction x), Some (Transaction y)))
       else if lessEqDefined (activeEnd infoA) (activeStart infoB) then
         (case adjustBoth (operations tb) AtStart (diff infoA) (operations ta) AtEnd (diff infoB) of
            Inl e \<Rightarrow> Inl e
          | Inr (y, x) \<Rightarrow> Inr (Some (Transaction x), Some (Transaction y)))
       else if lessEqDefined (activeEnd infoB) (activeStart infoA) then
         (case adjustBoth (operations ta) AtStart (diff infoB) (operations tb) AtEnd (diff infoA) of
            Inl e \<Rightarrow> Inl e
          | Inr (x, y) \<Rightarrow> Inr (Some (Transaction x), Some (Transaction y)))
       else Inr (None, None))"
    unfolding rebaseTransactions_def
    by (simp add: Let_def getActiveRangeAndLengthDiff_clone infoA_def infoB_def
        operations_clone clone_with_operations cong: sum.case_cong prod.case_cong if_cong)
  have AB: "case adjustBoth (operations ta) pl1 d1 (operations tb) pl2 d2 of
              Inl e \<Rightarrow> res = Inl e
            | Inr (x, y) \<Rightarrow> res = Inr (Some a, Some b) \<and>
                readTransaction h' a = Some (Transaction x) \<and>
                readTransaction h' b = Some (Transaction y)"
    if "finished (adjustBothObjects h2 ca pl1 d1 cb pl2 d2) = (res, h')" for pl1 d1 pl2 d2
  proof -
    obtain r k where both: "adjustBothObjects h2 ca pl1 d1 cb pl2 d2 = (r, k)"
      by (cases "adjustBothObjects h2 ca pl1 d1 cb pl2 d2")
    from adjustBothObjects_transactions [OF holdsA2 holdsB ne disj txA2 txB both] that both
    show ?thesis by (auto simp: finished_def split: sum.splits)
  qed
  have BA: "case adjustBoth (operations tb) pl1 d1 (operations ta) pl2 d2 of
              Inl e \<Rightarrow> res = Inl e
            | Inr (y, x) \<Rightarrow> res = Inr (Some a, Some b) \<and>
                readTransaction h' a = Some (Transaction x) \<and>
                readTransaction h' b = Some (Transaction y)"
    if "finished (adjustBothObjects h2 cb pl1 d1 ca pl2 d2) = (res, h')" for pl1 d1 pl2 d2
  proof -
    obtain r k where both: "adjustBothObjects h2 cb pl1 d1 ca pl2 d2 = (r, k)"
      by (cases "adjustBothObjects h2 cb pl1 d1 ca pl2 d2")
    from adjustBothObjects_transactions [OF holdsB holdsA2 ne [symmetric] disj' txB txA2 both] that both
    show ?thesis by (auto simp: finished_def split: sum.splits)
  qed
  consider (unknown) "activeStart infoA = None \<or> activeStart infoB = None"
    | (aFirst) "\<not> (activeStart infoA = None \<or> activeStart infoB = None)"
        "lessEqDefined (activeEnd infoA) (activeStart infoB)"
    | (bFirst) "\<not> (activeStart infoA = None \<or> activeStart infoB = None)"
        "\<not> lessEqDefined (activeEnd infoA) (activeStart infoB)"
        "lessEqDefined (activeEnd infoB) (activeStart infoA)"
    | (conflict) "\<not> (activeStart infoA = None \<or> activeStart infoB = None)"
        "\<not> lessEqDefined (activeEnd infoA) (activeStart infoB)"
        "\<not> lessEqDefined (activeEnd infoB) (activeStart infoA)"
    by atomize_elim auto
  then show ?thesis
  proof cases
    case unknown
    with run unfoldO
    have "finished (adjustBothObjects h2 ca AtStart (diff infoB) cb AtStart (diff infoA)) = (res, h')"
      by simp
    from AB [OF this] unknown show ?thesis
      unfolding unfoldV by (auto split: sum.splits)
  next
    case aFirst
    with run unfoldO
    have "finished (adjustBothObjects h2 cb AtStart (diff infoA) ca AtEnd (diff infoB)) = (res, h')"
      by simp
    from BA [OF this] aFirst show ?thesis
      unfolding unfoldV by (auto split: sum.splits)
  next
    case bFirst
    with run unfoldO
    have "finished (adjustBothObjects h2 ca AtStart (diff infoB) cb AtEnd (diff infoA)) = (res, h')"
      by simp
    from AB [OF this] bFirst show ?thesis
      unfolding unfoldV by (auto split: sum.splits)
  next
    case conflict
    with run unfoldO have "res = Inr (None, None)" by simp
    moreover have "rebaseTransactions ta tb = Inr (None, None)"
      unfolding unfoldV by (simp only: conflict if_False)
    ultimately show ?thesis by simp
  qed
qed

end
